theory Spec2Isabelle
  imports Main "HOL-Library.Word" "HOL-Library.Log_Nat"
begin

section \<open>JavaScript strings\<close>

text \<open>
  A JavaScript string is a sequence of 16-bit code units.  The literals of this theory are
  written as Isabelle strings and converted with \<open>js\<close>.
\<close>

type_synonym code_unit = "16 word"
type_synonym jsstring = "code_unit list"

definition js :: "string \<Rightarrow> jsstring" where
  "js s = map (\<lambda>c. of_int (of_char c)) s"

definition is_high_surrogate :: "code_unit \<Rightarrow> bool" where
  "is_high_surrogate c = (0xD800 \<le> uint c \<and> uint c \<le> 0xDBFF)"

definition is_low_surrogate :: "code_unit \<Rightarrow> bool" where
  "is_low_surrogate c = (0xDC00 \<le> uint c \<and> uint c \<le> 0xDFFF)"

definition is_digit :: "code_unit \<Rightarrow> bool" where
  "is_digit c = (48 \<le> uint c \<and> uint c \<le> 57)"

definition digit_val :: "code_unit \<Rightarrow> int" where
  "digit_val c = uint c - 48"

definition digit_char :: "int \<Rightarrow> code_unit" where
  "digit_char d = of_int (48 + d)"

definition is_ws :: "code_unit \<Rightarrow> bool" where
  \<comment> \<open>JSON white space: tab, line feed, carriage return, space\<close>
  "is_ws c = (c = 0x09 \<or> c = 0x0A \<or> c = 0x0D \<or> c = 0x20)"

section \<open>QuoteJSONString and the string token of the JSON grammar\<close>

definition hex_digit :: "int \<Rightarrow> code_unit" where
  \<comment> \<open>lower-case hexadecimal digit\<close>
  "hex_digit n = (if n < 10 then of_int (48 + n) else of_int (87 + n))"

definition unicode_escape :: "code_unit \<Rightarrow> jsstring" where
  "unicode_escape c = (let n = uint c in
     [0x5C, 0x75, hex_digit (n div 4096), hex_digit (n div 256 mod 16),
      hex_digit (n div 16 mod 16), hex_digit (n mod 16)])"

definition quote_unit :: "code_unit \<Rightarrow> jsstring" where
  \<comment> \<open>one code unit that is not a surrogate\<close>
  "quote_unit c =
    (if c = 0x08 then [0x5C, 0x62]
     else if c = 0x09 then [0x5C, 0x74]
     else if c = 0x0A then [0x5C, 0x6E]
     else if c = 0x0C then [0x5C, 0x66]
     else if c = 0x0D then [0x5C, 0x72]
     else if c = 0x22 then [0x5C, 0x22]
     else if c = 0x5C then [0x5C, 0x5C]
     else if uint c < 0x20 then unicode_escape c
     else [c])"

fun quote_units :: "jsstring \<Rightarrow> jsstring" where
  "quote_units [] = []"
| "quote_units [c] =
    (if is_high_surrogate c \<or> is_low_surrogate c then unicode_escape c else quote_unit c)"
| "quote_units (c # d # cs) =
    (if is_high_surrogate c then
       (if is_low_surrogate d then c # d # quote_units cs
        else unicode_escape c @ quote_units (d # cs))
     else if is_low_surrogate c then unicode_escape c @ quote_units (d # cs)
     else quote_unit c @ quote_units (d # cs))"

definition QuoteJSONString :: "jsstring \<Rightarrow> jsstring" where
  "QuoteJSONString s = 0x22 # quote_units s @ [0x22]"

definition hex_val :: "code_unit \<Rightarrow> int option" where
  "hex_val c = (let n = uint c in
     if 48 \<le> n \<and> n \<le> 57 then Some (n - 48)
     else if 65 \<le> n \<and> n \<le> 70 then Some (n - 55)
     else if 97 \<le> n \<and> n \<le> 102 then Some (n - 87)
     else None)"

definition hex4 :: "code_unit \<Rightarrow> code_unit \<Rightarrow> code_unit \<Rightarrow> code_unit \<Rightarrow> code_unit option" where
  "hex4 a b c d =
    (case (hex_val a, hex_val b, hex_val c, hex_val d) of
       (Some x, Some y, Some z, Some w) \<Rightarrow> Some (of_int (((x * 16 + y) * 16 + z) * 16 + w))
     | _ \<Rightarrow> None)"

definition unescape :: "code_unit \<Rightarrow> code_unit option" where
  \<comment> \<open>the single-character escapes of the JSON grammar\<close>
  "unescape e =
    (if e = 0x22 then Some 0x22
     else if e = 0x5C then Some 0x5C
     else if e = 0x2F then Some 0x2F
     else if e = 0x62 then Some 0x08
     else if e = 0x66 then Some 0x0C
     else if e = 0x6E then Some 0x0A
     else if e = 0x72 then Some 0x0D
     else if e = 0x74 then Some 0x09
     else None)"

definition cons_result :: "'a \<Rightarrow> ('a list \<times> 'b) option \<Rightarrow> ('a list \<times> 'b) option" where
  "cons_result c r = (case r of None \<Rightarrow> None | Some (s, rest) \<Rightarrow> Some (c # s, rest))"

fun parse_string_chars :: "jsstring \<Rightarrow> (jsstring \<times> jsstring) option" where
  \<comment> \<open>the characters of a string token after its opening quote, up to the closing quote\<close>
  "parse_string_chars [] = None"
| "parse_string_chars (c # cs) =
    (if c = 0x22 then Some ([], cs)
     else if c = 0x5C then
       (case cs of
          [] \<Rightarrow> None
        | e # es \<Rightarrow>
            if e = 0x75 then
              (case es of
                 h1 # h2 # h3 # h4 # r \<Rightarrow>
                   (case hex4 h1 h2 h3 h4 of
                      None \<Rightarrow> None
                    | Some u \<Rightarrow> cons_result u (parse_string_chars r))
               | _ \<Rightarrow> None)
            else
              (case unescape e of
                 None \<Rightarrow> None
               | Some u \<Rightarrow> cons_result u (parse_string_chars es)))
     else if uint c < 0x20 then None
     else cons_result c (parse_string_chars cs))"

section \<open>Number values\<close>

text \<open>
  A Number is an IEEE 754 double.  \<open>Finite neg m e\<close> stands for the value
  \<open>(-1)^neg * m * 2^e\<close>, kept in the unique form where \<open>m\<close> is odd, or
  \<open>m = 0\<close> and \<open>e = 0\<close> for the two zeros.  A double has \<open>m < 2^53\<close>,
  \<open>-1074 \<le> e\<close> and a value below \<open>2^1024\<close>.
\<close>

datatype jsnum = NaN | Infinity bool | Finite bool int int

function norm_odd :: "int \<Rightarrow> int \<Rightarrow> int \<times> int" where
  "norm_odd m e =
    (if m \<le> 0 then (0, 0) else if even m then norm_odd (m div 2) (e + 1) else (m, e))"
  by pat_completeness auto
termination
  by (relation "measure (\<lambda>(m, e). nat m)") auto

declare norm_odd.simps [simp del]

definition round_half_even :: "int \<Rightarrow> int \<Rightarrow> int" where
  \<comment> \<open>the integer nearest to \<open>n / d\<close> for \<open>0 < d\<close>, ties to the even one\<close>
  "round_half_even n d =
    (let k = n div d; r = n mod d
     in if 2 * r < d then k else if d < 2 * r then k + 1 else if even k then k else k + 1)"

definition floor_log2 :: "int \<Rightarrow> int \<Rightarrow> int" where
  \<comment> \<open>\<open>\<lfloor>log\<^sub>2 (p / q)\<rfloor>\<close> for positive \<open>p\<close> and \<open>q\<close>\<close>
  "floor_log2 p q = (if q \<le> p then bitlen (p div q) - 1 else - bitlen ((q - 1) div p))"

definition scale_round :: "int \<Rightarrow> int \<Rightarrow> int \<Rightarrow> int" where
  \<comment> \<open>the integer nearest to \<open>(p / q) / 2^u\<close>, ties to the even one\<close>
  "scale_round p q u =
    (if 0 \<le> u then round_half_even p (q * 2 ^ nat u)
     else round_half_even (p * 2 ^ nat (- u)) q)"

definition round_to_double :: "bool \<Rightarrow> int \<Rightarrow> int \<Rightarrow> jsnum" where
  \<comment> \<open>the double nearest to \<open>p / q\<close> (round to nearest, ties to even), with the sign \<open>neg\<close>:
      53 significant bits, the least one no smaller than \<open>2^-1074\<close>, and \<open>Infinity\<close> from
      \<open>2^1024\<close> on\<close>
  "round_to_double neg p q =
    (if p \<le> 0 then Finite neg 0 0
     else
       let u = max (floor_log2 p q - 52) (- 1074);
           m = scale_round p q u
       in if 1024 < bitlen m + u then Infinity neg
          else (case norm_odd m u of (m', e') \<Rightarrow> Finite neg m' e'))"

definition is_double :: "jsnum \<Rightarrow> bool" where
  \<comment> \<open>the representation is the one of a double\<close>
  "is_double x =
    (case x of
       Finite neg m e \<Rightarrow>
         (m = 0 \<and> e = 0)
         \<or> (0 < m \<and> odd m \<and> m < 2 ^ 53 \<and> - 1074 \<le> e \<and> bitlen m + e \<le> 1024)
     | _ \<Rightarrow> True)"

definition decimal_to_double :: "bool \<Rightarrow> int \<Rightarrow> int \<Rightarrow> jsnum" where
  \<comment> \<open>the Number value of the decimal \<open>d * 10^x\<close>\<close>
  "decimal_to_double neg d x =
    (if 0 \<le> x then round_to_double neg (d * 10 ^ nat x) 1
     else round_to_double neg d (10 ^ nat (- x)))"

subsection \<open>Decimal digits\<close>

function dec_digits :: "int \<Rightarrow> jsstring" where
  "dec_digits n =
    (if n < 10 then [digit_char n] else dec_digits (n div 10) @ [digit_char (n mod 10)])"
  by pat_completeness auto
termination
  by (relation "measure nat") auto

declare dec_digits.simps [simp del]

definition digits_val :: "jsstring \<Rightarrow> int" where
  "digits_val ds = foldl (\<lambda>a c. 10 * a + digit_val c) 0 ds"

subsection \<open>Number::toString\<close>

definition exact_decimal :: "int \<Rightarrow> int \<Rightarrow> int \<times> int" where
  \<comment> \<open>\<open>m * 2^e = N * 10^t\<close> with an integer \<open>N\<close>\<close>
  "exact_decimal m e = (if 0 \<le> e then (m * 2 ^ nat e, 0) else (m * 5 ^ nat (- e), e))"

definition rounds_to :: "int \<Rightarrow> int \<Rightarrow> int \<Rightarrow> int \<times> int \<Rightarrow> bool" where
  \<comment> \<open>the \<open>k\<close>-digit candidate \<open>(s, n)\<close>, that is \<open>s * 10^(n - k)\<close>, rounds to \<open>m * 2^e\<close>\<close>
  "rounds_to m e k c = (decimal_to_double False (fst c) (snd c - k) = Finite False m e)"

definition pick_candidate :: "bool \<Rightarrow> bool \<Rightarrow> bool \<Rightarrow> 'a \<Rightarrow> 'a \<Rightarrow> 'a option" where
  "pick_candidate ok_lo ok_hi lo_first c_lo c_hi =
    (if ok_lo \<and> ok_hi then (if lo_first then Some c_lo else Some c_hi)
     else if ok_lo then Some c_lo
     else if ok_hi then Some c_hi
     else None)"

definition lo_candidate :: "int \<Rightarrow> int \<Rightarrow> int \<Rightarrow> int \<Rightarrow> int \<times> int" where
  \<comment> \<open>the exact value \<open>N * 10^t\<close>, where \<open>N\<close> has \<open>L\<close> digits, cut down to \<open>k\<close> digits\<close>
  "lo_candidate N L t k = (N div 10 ^ nat (L - k), L + t)"

definition hi_candidate :: "int \<Rightarrow> int \<Rightarrow> int \<Rightarrow> int \<Rightarrow> int \<times> int" where
  \<comment> \<open>the next \<open>k\<close>-digit decimal above\<close>
  "hi_candidate N L t k =
    (let hi = N div 10 ^ nat (L - k) + 1
     in if hi < 10 ^ nat k then (hi, L + t) else (10 ^ nat (k - 1), L + t + 1))"

definition best_candidate :: "int \<Rightarrow> int \<Rightarrow> int \<Rightarrow> int \<Rightarrow> int \<Rightarrow> int \<Rightarrow> (int \<times> int) option" where
  \<comment> \<open>a \<open>k\<close>-digit \<open>s\<close> and an \<open>n\<close> with \<open>s * 10^(n - k)\<close> rounding to \<open>m * 2^e\<close>,
      the nearest such, the even one of two equally near\<close>
  "best_candidate m e N L t k =
    (let c_lo = lo_candidate N L t k;
         c_hi = hi_candidate N L t k;
         w = 10 ^ nat (L - k);
         lo = N div w;
         lo_first = (N - lo * w < (lo + 1) * w - N \<or> (N - lo * w = (lo + 1) * w - N \<and> even lo))
     in pick_candidate (rounds_to m e k c_lo) (rounds_to m e k c_hi) lo_first c_lo c_hi)"

function shortest_digits :: "int \<Rightarrow> int \<Rightarrow> int \<Rightarrow> int \<Rightarrow> int \<Rightarrow> int \<Rightarrow> int \<times> int" where
  \<comment> \<open>the digits \<open>s\<close> and the \<open>n\<close> of Number::toString, trying \<open>k\<close>, \<open>k + 1\<close>, ... digits; the
      exact expansion always qualifies\<close>
  "shortest_digits m e N L t k =
    (if L \<le> k then (N, L + t)
     else (case best_candidate m e N L t k of
             Some c \<Rightarrow> c
           | None \<Rightarrow> shortest_digits m e N L t (k + 1)))"
  by pat_completeness auto
termination
  by (relation "measure (\<lambda>(m, e, N, L, t, k). nat (L - k))") auto

declare shortest_digits.simps [simp del]

definition format_digits :: "jsstring \<Rightarrow> int \<Rightarrow> jsstring" where
  \<comment> \<open>the digits \<open>ds\<close> of \<open>s\<close> and \<open>n\<close> laid out as Number::toString does\<close>
  "format_digits ds n =
    (let k = int (length ds)
     in if k \<le> n \<and> n \<le> 21 then ds @ replicate (nat (n - k)) 0x30
        else if 0 < n \<and> n \<le> 21 then take (nat n) ds @ 0x2E # drop (nat n) ds
        else if - 6 < n \<and> n \<le> 0 then 0x30 # 0x2E # replicate (nat (- n)) 0x30 @ ds
        else
          (let ex = (if 0 < n - 1 then 0x2B else 0x2D) # dec_digits \<bar>n - 1\<bar>
           in if k = 1 then ds @ 0x65 # ex
              else hd ds # 0x2E # tl ds @ 0x65 # ex))"

definition Number_toString :: "jsnum \<Rightarrow> jsstring" where
  "Number_toString x =
    (case x of
       NaN \<Rightarrow> js ''NaN''
     | Infinity neg \<Rightarrow> (if neg then js ''-Infinity'' else js ''Infinity'')
     | Finite neg m e \<Rightarrow>
         if m = 0 then js ''0''
         else
           (case exact_decimal m e of
              (N, t) \<Rightarrow>
                (case shortest_digits m e N (int (length (dec_digits N))) t 1 of
                   (s, n) \<Rightarrow> (if neg then [0x2D] else []) @ format_digits (dec_digits s) n)))"

subsection \<open>The number token of the JSON grammar\<close>

definition parse_exponent :: "jsstring \<Rightarrow> (int \<times> jsstring) option" where
  \<comment> \<open>after the \<open>e\<close> or \<open>E\<close>: an optional sign and at least one digit\<close>
  "parse_exponent s =
    (let (sg, r) = (case s of
                      [] \<Rightarrow> (1, s)
                    | c # cs \<Rightarrow> if c = 0x2B then (1, cs) else if c = 0x2D then (- 1, cs) else (1, s));
         ds = takeWhile is_digit r
     in if ds = [] then None else Some (sg * digits_val ds, dropWhile is_digit r))"

definition parse_fraction :: "jsstring \<Rightarrow> (jsstring \<times> jsstring) option" where
  \<comment> \<open>an optional point with at least one digit after it\<close>
  "parse_fraction s =
    (case s of
       [] \<Rightarrow> Some ([], s)
     | c # cs \<Rightarrow>
         if c = 0x2E then
           (if takeWhile is_digit cs = [] then None
            else Some (takeWhile is_digit cs, dropWhile is_digit cs))
         else Some ([], s))"

definition parse_exponent_part :: "jsstring \<Rightarrow> (int \<times> jsstring) option" where
  "parse_exponent_part s =
    (case s of
       [] \<Rightarrow> Some (0, s)
     | c # cs \<Rightarrow> if c = 0x65 \<or> c = 0x45 then parse_exponent cs else Some (0, s))"

definition parse_unsigned :: "bool \<Rightarrow> jsstring \<Rightarrow> (jsnum \<times> jsstring) option" where
  \<comment> \<open>the integer part has no leading zero; the value is
      \<open>(digits of both parts) * 10^(exponent - number of fraction digits)\<close>\<close>
  "parse_unsigned neg s =
    (let ip = takeWhile is_digit s
     in if ip = [] \<or> (1 < length ip \<and> hd ip = 0x30) then None
        else
          (case parse_fraction (dropWhile is_digit s) of
             None \<Rightarrow> None
           | Some (fp, s3) \<Rightarrow>
               (case parse_exponent_part s3 of
                  None \<Rightarrow> None
                | Some (ex, s4) \<Rightarrow>
                    Some (decimal_to_double neg (digits_val (ip @ fp)) (ex - int (length fp)),
                          s4))))"

definition parse_number :: "jsstring \<Rightarrow> (jsnum \<times> jsstring) option" where
  "parse_number s =
    (case s of
       [] \<Rightarrow> None
     | c # cs \<Rightarrow> if c = 0x2D then parse_unsigned True cs else parse_unsigned False s)"

definition number_ends :: "jsstring \<Rightarrow> bool" where
  \<comment> \<open>no character that would continue a number token comes next\<close>
  "number_ends r =
    (case r of [] \<Rightarrow> True | c # cs \<Rightarrow> \<not> is_digit c \<and> c \<noteq> 0x2E \<and> c \<noteq> 0x65 \<and> c \<noteq> 0x45)"

definition value_start :: "code_unit \<Rightarrow> bool" where
  \<comment> \<open>neither white space nor a closing bracket\<close>
  "value_start c = (\<not> is_ws c \<and> c \<noteq> 0x5D \<and> c \<noteq> 0x7D)"

section \<open>JSON values\<close>

text \<open>
  The values \<open>JSON.parse\<close> produces.  An object is the list of its own properties in the
  order \<open>OrdinaryOwnPropertyKeys\<close> enumerates them: array indices in ascending order first,
  then the other keys in the order of their creation.
\<close>

datatype jsval =
    JNull
  | JBool bool
  | JNum jsnum
  | JStr jsstring
  | JArr "jsval list"
  | JObj "(jsstring \<times> jsval) list"

definition array_index :: "jsstring \<Rightarrow> int option" where
  \<comment> \<open>a canonical numeric string for an integer from 0 to \<open>2^32 - 2\<close>\<close>
  "array_index k =
    (if k \<noteq> [] \<and> list_all is_digit k \<and> (hd k \<noteq> 0x30 \<or> length k = 1)
        \<and> length k \<le> 10 \<and> digits_val k \<le> 4294967294
     then Some (digits_val k) else None)"

definition key_before :: "jsstring \<Rightarrow> jsstring \<Rightarrow> bool" where
  \<comment> \<open>a new key \<open>k\<close> is enumerated before the existing key \<open>k'\<close>\<close>
  "key_before k k' =
    (case array_index k of
       None \<Rightarrow> False
     | Some i \<Rightarrow> (case array_index k' of None \<Rightarrow> True | Some j \<Rightarrow> i < j))"

fun CreateDataProperty :: "(jsstring \<times> jsval) list \<Rightarrow> jsstring \<Rightarrow> jsval \<Rightarrow> (jsstring \<times> jsval) list" where
  "CreateDataProperty [] k v = [(k, v)]"
| "CreateDataProperty ((k', v') # ps) k v =
    (if k' = k then (k, v) # ps
     else if key_before k k' then (k, v) # (k', v') # ps
     else (k', v') # CreateDataProperty ps k v)"

definition build_object :: "(jsstring \<times> jsval) list \<Rightarrow> jsval" where
  \<comment> \<open>the members of an object text, defined one after the other\<close>
  "build_object ms = JObj (foldl (\<lambda>ps (k, v). CreateDataProperty ps k v) [] ms)"

definition get_property :: "jsval \<Rightarrow> jsstring \<Rightarrow> jsval option" where
  \<comment> \<open>\<open>None\<close> is \<open>undefined\<close>\<close>
  "get_property v k = (case v of JObj ps \<Rightarrow> map_of ps k | _ \<Rightarrow> None)"

section \<open>JSON.parse\<close>

text \<open>
  The errors that the built-in functions of the handler raise: \<open>JSON.parse\<close> raises a
  \<open>SyntaxError\<close> on a text that is not JSON, \<open>JSON.stringify\<close> a \<open>RangeError\<close> when
  the stack is exhausted.
\<close>

datatype error = SyntaxError | RangeError

definition skip_ws :: "jsstring \<Rightarrow> jsstring" where
  "skip_ws s = dropWhile is_ws s"

definition expect_literal :: "jsstring \<Rightarrow> jsval \<Rightarrow> jsstring \<Rightarrow> (jsval \<times> jsstring) option" where
  "expect_literal l v s =
    (if take (length l) s = l then Some (v, drop (length l) s) else None)"

text \<open>
  Recursive descent over the JSON grammar.  The first argument bounds the number of nested
  calls; \<open>JSON_parse\<close> starts with more than the length of the text, which is never used up
  since every call consumes a character (lemma \<open>fuel_adequate\<close> below).
  The bound is a device of the definition only: the parser of the engine keeps its own
  stack, and the nesting of the text that it reads is not bounded by the stack of the engine.
\<close>

fun parse_value :: "nat \<Rightarrow> jsstring \<Rightarrow> (jsval \<times> jsstring) option"
  and parse_elements :: "nat \<Rightarrow> jsstring \<Rightarrow> (jsval list \<times> jsstring) option"
  and parse_members :: "nat \<Rightarrow> jsstring \<Rightarrow> ((jsstring \<times> jsval) list \<times> jsstring) option"
where
  "parse_value 0 s = None"
| "parse_value (Suc n) s =
    (case skip_ws s of
       [] \<Rightarrow> None
     | c # cs \<Rightarrow>
         if c = 0x7B then
           (case skip_ws cs of
              [] \<Rightarrow> None
            | d # ds \<Rightarrow>
                if d = 0x7D then Some (JObj [], ds)
                else (case parse_members n (d # ds) of
                        None \<Rightarrow> None
                      | Some (ms, r) \<Rightarrow> Some (build_object ms, r)))
         else if c = 0x5B then
           (case skip_ws cs of
              [] \<Rightarrow> None
            | d # ds \<Rightarrow>
                if d = 0x5D then Some (JArr [], ds)
                else (case parse_elements n (d # ds) of
                        None \<Rightarrow> None
                      | Some (vs, r) \<Rightarrow> Some (JArr vs, r)))
         else if c = 0x22 then
           (case parse_string_chars cs of None \<Rightarrow> None | Some (str, r) \<Rightarrow> Some (JStr str, r))
         else if c = 0x74 then expect_literal (js ''true'') (JBool True) (c # cs)
         else if c = 0x66 then expect_literal (js ''false'') (JBool False) (c # cs)
         else if c = 0x6E then expect_literal (js ''null'') JNull (c # cs)
         else if c = 0x2D \<or> is_digit c then
           (case parse_number (c # cs) of None \<Rightarrow> None | Some (x, r) \<Rightarrow> Some (JNum x, r))
         else None)"
| "parse_elements 0 s = None"
| "parse_elements (Suc n) s =
    (case parse_value n s of
       None \<Rightarrow> None
     | Some (v, r) \<Rightarrow>
         (case skip_ws r of
            [] \<Rightarrow> None
          | c # cs \<Rightarrow>
              if c = 0x5D then Some ([v], cs)
              else if c = 0x2C then
                (case parse_elements n cs of
                   None \<Rightarrow> None
                 | Some (vs, r') \<Rightarrow> Some (v # vs, r'))
              else None))"
| "parse_members 0 s = None"
| "parse_members (Suc n) s =
    (case skip_ws s of
       [] \<Rightarrow> None
     | q # qs \<Rightarrow>
         if q \<noteq> 0x22 then None
         else
           (case parse_string_chars qs of
              None \<Rightarrow> None
            | Some (k, r) \<Rightarrow>
                (case skip_ws r of
                   [] \<Rightarrow> None
                 | c # cs \<Rightarrow>
                     if c \<noteq> 0x3A then None
                     else
                       (case parse_value n cs of
                          None \<Rightarrow> None
                        | Some (v, r') \<Rightarrow>
                            (case skip_ws r' of
                               [] \<Rightarrow> None
                             | e # es \<Rightarrow>
                                 if e = 0x7D then Some ([(k, v)], es)
                                 else if e = 0x2C then
                                   (case parse_members n es of
                                      None \<Rightarrow> None
                                    | Some (ms, r'') \<Rightarrow> Some ((k, v) # ms, r''))
                                 else None)))))"

definition JSON_parse :: "jsstring \<Rightarrow> error + jsval" where
  "JSON_parse s =
    (case parse_value (Suc (length s)) s of
       None \<Rightarrow> Inl SyntaxError
     | Some (v, r) \<Rightarrow> if skip_ws r = [] then Inr v else Inl SyntaxError)"

section \<open>JSON.stringify\<close>

fun join :: "'a list \<Rightarrow> 'a list list \<Rightarrow> 'a list" where
  "join sep [] = []"
| "join sep [x] = x"
| "join sep (x # y # ys) = x @ sep @ join sep (y # ys)"

text \<open>
  \<open>SerializeJSONProperty\<close> with its \<open>gap\<close> and current \<open>indent\<close>; no value of the type is
  \<open>undefined\<close>, a function or an object with a \<open>toJSON\<close> method.
\<close>

fun SerializeJSONProperty :: "jsstring \<Rightarrow> jsstring \<Rightarrow> jsval \<Rightarrow> jsstring"
  and SerializeJSONArray :: "jsstring \<Rightarrow> jsstring \<Rightarrow> jsval list \<Rightarrow> jsstring list"
  and SerializeJSONObject :: "jsstring \<Rightarrow> jsstring \<Rightarrow> (jsstring \<times> jsval) list \<Rightarrow> jsstring list"
where
  "SerializeJSONProperty gap indent JNull = js ''null''"
| "SerializeJSONProperty gap indent (JBool b) = (if b then js ''true'' else js ''false'')"
| "SerializeJSONProperty gap indent (JNum x) =
    (case x of Finite neg m e \<Rightarrow> Number_toString x | _ \<Rightarrow> js ''null'')"
| "SerializeJSONProperty gap indent (JStr s) = QuoteJSONString s"
| "SerializeJSONProperty gap indent (JArr vs) =
    (if vs = [] then js ''[]''
     else if gap = [] then 0x5B # join [0x2C] (SerializeJSONArray gap (indent @ gap) vs) @ [0x5D]
     else 0x5B # 0x0A # indent @ gap
            @ join (0x2C # 0x0A # indent @ gap) (SerializeJSONArray gap (indent @ gap) vs)
            @ 0x0A # indent @ [0x5D])"
| "SerializeJSONProperty gap indent (JObj ps) =
    (if ps = [] then js ''{}''
     else if gap = [] then 0x7B # join [0x2C] (SerializeJSONObject gap (indent @ gap) ps) @ [0x7D]
     else 0x7B # 0x0A # indent @ gap
            @ join (0x2C # 0x0A # indent @ gap) (SerializeJSONObject gap (indent @ gap) ps)
            @ 0x0A # indent @ [0x7D])"
| "SerializeJSONArray gap indent [] = []"
| "SerializeJSONArray gap indent (v # vs) =
    SerializeJSONProperty gap indent v # SerializeJSONArray gap indent vs"
| "SerializeJSONObject gap indent [] = []"
| "SerializeJSONObject gap indent ((k, v) # ps) =
    (QuoteJSONString k @ 0x3A # (if gap = [] then [] else [0x20])
       @ SerializeJSONProperty gap indent v)
    # SerializeJSONObject gap indent ps"

definition json_text :: "jsval \<Rightarrow> jsstring" where
  \<comment> \<open>the text that \<open>JSON.stringify(value)\<close> returns when it completes\<close>
  "json_text v = SerializeJSONProperty [] [] v"

definition json_text_spaces :: "nat \<Rightarrow> jsval \<Rightarrow> jsstring" where
  \<comment> \<open>the text that \<open>JSON.stringify(value, null, n)\<close> returns when it completes; the gap
      is at most ten spaces\<close>
  "json_text_spaces n v = SerializeJSONProperty (replicate (min n 10) 0x20) [] v"

text \<open>
  The engine serialises by recursion: \<open>SerializeJSONProperty\<close> calls \<open>SerializeJSONArray\<close>
  or \<open>SerializeJSONObject\<close> for every array and object, and these call it again for every
  element and property.  When the stack has no room for one more of these nested calls the
  engine raises a \<open>RangeError\<close> and \<open>JSON.stringify\<close> returns nothing.  The number
  \<open>stack\<close> of nested calls that there is room for when the handler runs is a constant of
  the engine that the source does not fix; it is a parameter of the model.  \<open>depth\<close> is the
  number of nested calls that serialising a value needs.
\<close>

fun depth :: "jsval \<Rightarrow> nat"
  and depth_list :: "jsval list \<Rightarrow> nat"
  and depth_props :: "(jsstring \<times> jsval) list \<Rightarrow> nat"
where
  "depth JNull = 0"
| "depth (JBool b) = 0"
| "depth (JNum x) = 0"
| "depth (JStr s) = 0"
| "depth (JArr vs) = Suc (depth_list vs)"
| "depth (JObj ps) = Suc (depth_props ps)"
| "depth_list [] = 0"
| "depth_list (v # vs) = max (depth v) (depth_list vs)"
| "depth_props [] = 0"
| "depth_props ((k, v) # ps) = max (depth v) (depth_props ps)"

definition JSON_stringify :: "nat \<Rightarrow> jsval \<Rightarrow> error + jsstring" where
  \<comment> \<open>\<open>JSON.stringify(value)\<close> on a stack with room for \<open>stack\<close> nested calls\<close>
  "JSON_stringify stack v = (if depth v \<le> stack then Inr (json_text v) else Inl RangeError)"

definition JSON_stringify_spaces :: "nat \<Rightarrow> nat \<Rightarrow> jsval \<Rightarrow> error + jsstring" where
  \<comment> \<open>\<open>JSON.stringify(value, null, n)\<close> on a stack with room for \<open>stack\<close> nested calls\<close>
  "JSON_stringify_spaces stack n v =
    (if depth v \<le> stack then Inr (json_text_spaces n v) else Inl RangeError)"

section \<open>Values as JSON texts carry them\<close>

text \<open>
  \<open>JSON.stringify\<close> writes \<open>null\<close> for a Number that is not finite and \<open>0\<close> for
  the negative zero; \<open>json_norm\<close> is the value that the text of a value denotes.
\<close>

fun json_norm :: "jsval \<Rightarrow> jsval"
  and json_norm_list :: "jsval list \<Rightarrow> jsval list"
  and json_norm_props :: "(jsstring \<times> jsval) list \<Rightarrow> (jsstring \<times> jsval) list"
where
  "json_norm JNull = JNull"
| "json_norm (JBool b) = JBool b"
| "json_norm (JNum x) =
    (case x of Finite neg m e \<Rightarrow> JNum (Finite (neg \<and> m \<noteq> 0) m e) | _ \<Rightarrow> JNull)"
| "json_norm (JStr s) = JStr s"
| "json_norm (JArr vs) = JArr (json_norm_list vs)"
| "json_norm (JObj ps) = JObj (json_norm_props ps)"
| "json_norm_list [] = []"
| "json_norm_list (v # vs) = json_norm v # json_norm_list vs"
| "json_norm_props [] = []"
| "json_norm_props ((k, v) # ps) = (k, json_norm v) # json_norm_props ps"


fun key_ordered :: "jsstring list \<Rightarrow> bool" where
  \<comment> \<open>distinct keys in the order of enumeration\<close>
  "key_ordered [] = True"
| "key_ordered (k # ks) = ((\<forall>k' \<in> set ks. k' \<noteq> k \<and> \<not> key_before k' k) \<and> key_ordered ks)"

fun wf_value :: "jsval \<Rightarrow> bool"
  and wf_values :: "jsval list \<Rightarrow> bool"
  and wf_props :: "(jsstring \<times> jsval) list \<Rightarrow> bool"
where
  \<comment> \<open>the values of the language: Numbers are doubles, objects enumerate their keys in order\<close>
  "wf_value JNull = True"
| "wf_value (JBool b) = True"
| "wf_value (JNum x) = is_double x"
| "wf_value (JStr s) = True"
| "wf_value (JArr vs) = wf_values vs"
| "wf_value (JObj ps) = (wf_props ps \<and> key_ordered (map fst ps))"
| "wf_values [] = True"
| "wf_values (v # vs) = (wf_value v \<and> wf_values vs)"
| "wf_props [] = True"
| "wf_props ((k, v) # ps) = (wf_value v \<and> wf_props ps)"

section \<open>Date.prototype.toISOString\<close>

text \<open>
  A time value is a number of milliseconds since 1970-01-01T00:00:00Z.  \<open>new Date()\<close> holds
  the reading of the clock, which is finite, so that \<open>toISOString\<close> does not raise on it.
\<close>

definition DayFromYear :: "int \<Rightarrow> int" where
  "DayFromYear y =
    365 * (y - 1970) + (y - 1969) div 4 - (y - 1901) div 100 + (y - 1601) div 400"

definition InLeapYear :: "int \<Rightarrow> bool" where
  "InLeapYear y = (y mod 4 = 0 \<and> (y mod 100 \<noteq> 0 \<or> y mod 400 = 0))"

definition YearFromDay :: "int \<Rightarrow> int" where
  \<comment> \<open>the largest \<open>y\<close> with \<open>DayFromYear y \<le> d\<close>\<close>
  "YearFromDay d =
    (let y = 1970 + (400 * d) div 146097
     in if DayFromYear (y + 1) \<le> d then y + 1 else if DayFromYear y \<le> d then y else y - 1)"

definition MonthDate :: "int \<Rightarrow> bool \<Rightarrow> int \<times> int" where
  \<comment> \<open>month (from 1) and day of the month (from 1) of the day \<open>w\<close> within its year\<close>
  "MonthDate w leap =
    (let l = (if leap then 1 else 0)
     in if w < 31 then (1, w + 1)
        else if w < 59 + l then (2, w - 30)
        else if w < 90 + l then (3, w - 58 - l)
        else if w < 120 + l then (4, w - 89 - l)
        else if w < 151 + l then (5, w - 119 - l)
        else if w < 181 + l then (6, w - 150 - l)
        else if w < 212 + l then (7, w - 180 - l)
        else if w < 243 + l then (8, w - 211 - l)
        else if w < 273 + l then (9, w - 242 - l)
        else if w < 304 + l then (10, w - 272 - l)
        else if w < 334 + l then (11, w - 303 - l)
        else (12, w - 333 - l))"

definition pad :: "nat \<Rightarrow> int \<Rightarrow> jsstring" where
  \<comment> \<open>decimal digits, filled with zeros on the left up to the width\<close>
  "pad w n = replicate (w - length (dec_digits n)) 0x30 @ dec_digits n"

definition toISOString :: "int \<Rightarrow> jsstring" where
  "toISOString t =
    (let day = t div 86400000;
         ms = t mod 86400000;
         y = YearFromDay day;
         (mo, d) = MonthDate (day - DayFromYear y) (InLeapYear y);
         year = (if 0 \<le> y \<and> y \<le> 9999 then pad 4 y
                 else (if y < 0 then 0x2D else 0x2B) # pad 6 \<bar>y\<bar>)
     in year @ 0x2D # pad 2 mo @ 0x2D # pad 2 d @ 0x54 # pad 2 (ms div 3600000)
          @ 0x3A # pad 2 (ms div 60000 mod 60) @ 0x3A # pad 2 (ms div 1000 mod 60)
          @ 0x2E # pad 3 (ms mod 1000) @ [0x5A])"

subsection \<open>Reading the date-time format back\<close>

text \<open>
  The complete form of the date-time string format, \<open>YYYY-MM-DDTHH:mm:ss.sssZ\<close> with a
  four-digit year or a sign and a six-digit year, as \<open>Date.parse\<close> reads it.
\<close>

definition DaysBeforeMonth :: "int \<Rightarrow> bool \<Rightarrow> int" where
  "DaysBeforeMonth mo leap =
    (let l = (if leap then 1 else 0)
     in if mo = 1 then 0
        else if mo = 2 then 31
        else if mo = 3 then 59 + l
        else if mo = 4 then 90 + l
        else if mo = 5 then 120 + l
        else if mo = 6 then 151 + l
        else if mo = 7 then 181 + l
        else if mo = 8 then 212 + l
        else if mo = 9 then 243 + l
        else if mo = 10 then 273 + l
        else if mo = 11 then 304 + l
        else 334 + l)"

definition DaysInMonth :: "int \<Rightarrow> bool \<Rightarrow> int" where
  "DaysInMonth mo leap =
    (if mo = 2 then (if leap then 29 else 28)
     else if mo = 4 \<or> mo = 6 \<or> mo = 9 \<or> mo = 11 then 30
     else 31)"

definition fixed_digits :: "nat \<Rightarrow> jsstring \<Rightarrow> (int \<times> jsstring) option" where
  \<comment> \<open>exactly \<open>w\<close> digits\<close>
  "fixed_digits w s =
    (if w \<le> length s \<and> list_all is_digit (take w s)
     then Some (digits_val (take w s), drop w s) else None)"

definition date_field :: "nat \<Rightarrow> code_unit \<Rightarrow> jsstring \<Rightarrow> (int \<times> jsstring) option" where
  \<comment> \<open>\<open>w\<close> digits and the separator that follows them\<close>
  "date_field w sep s =
    (case fixed_digits w s of
       None \<Rightarrow> None
     | Some (n, r) \<Rightarrow>
         (case r of [] \<Rightarrow> None | c # cs \<Rightarrow> if c = sep then Some (n, cs) else None))"

definition parse_year :: "jsstring \<Rightarrow> (int \<times> jsstring) option" where
  \<comment> \<open>the year and the hyphen after it; the year \<open>-000000\<close> is not allowed\<close>
  "parse_year s =
    (case s of
       [] \<Rightarrow> None
     | c # cs \<Rightarrow>
         if c = 0x2B then date_field 6 0x2D cs
         else if c = 0x2D then
           (case date_field 6 0x2D cs of
              None \<Rightarrow> None
            | Some (y, r) \<Rightarrow> if y = 0 then None else Some (- y, r))
         else date_field 4 0x2D s)"

definition parse_date_time :: "jsstring \<Rightarrow> int option" where
  \<comment> \<open>the time value that the string denotes\<close>
  "parse_date_time s =
    (case parse_year s of None \<Rightarrow> None | Some (y, s1) \<Rightarrow>
     case date_field 2 0x2D s1 of None \<Rightarrow> None | Some (mo, s2) \<Rightarrow>
     case date_field 2 0x54 s2 of None \<Rightarrow> None | Some (d, s3) \<Rightarrow>
     case date_field 2 0x3A s3 of None \<Rightarrow> None | Some (h, s4) \<Rightarrow>
     case date_field 2 0x3A s4 of None \<Rightarrow> None | Some (mi, s5) \<Rightarrow>
     case date_field 2 0x2E s5 of None \<Rightarrow> None | Some (sec, s6) \<Rightarrow>
     case date_field 3 0x5A s6 of None \<Rightarrow> None | Some (ms, s7) \<Rightarrow>
       if s7 = [] \<and> 1 \<le> mo \<and> mo \<le> 12 \<and> 1 \<le> d \<and> d \<le> DaysInMonth mo (InLeapYear y)
          \<and> h \<le> 23 \<and> mi \<le> 59 \<and> sec \<le> 59
       then
         (let t = (DayFromYear y + DaysBeforeMonth mo (InLeapYear y) + d - 1) * 86400000
                  + h * 3600000 + mi * 60000 + sec * 1000 + ms
          in if \<bar>t\<bar> \<le> 8640000000000000 then Some t else None)
       else None)"

section \<open>The handler\<close>

text \<open>
  The event and the context as their TypeScript interfaces declare them
  (\<open>APIGatewayProxyEvent\<close>, \<open>Context\<close>): the body is a string or \<open>null\<close>, the maps of
  strings are lists of pairs and \<open>requestContext\<close> is a JSON value.
\<close>

record APIGatewayProxyEvent =
  body :: "jsstring option"
  headers :: "(jsstring \<times> jsstring) list"
  httpMethod :: jsstring
  isBase64Encoded :: bool
  path :: jsstring
  pathParameters :: "(jsstring \<times> jsstring) list option"
  queryStringParameters :: "(jsstring \<times> jsstring) list option"
  stageVariables :: "(jsstring \<times> jsstring) list option"
  requestContext :: jsval
  resource :: jsstring

record Context =
  awsRequestId :: jsstring
  functionName :: jsstring
  functionVersion :: jsstring
  invokedFunctionArn :: jsstring
  memoryLimitInMB :: jsstring
  logGroupName :: jsstring
  logStreamName :: jsstring

record APIGatewayProxyResult =
  statusCode :: int
  resultHeaders :: "(jsstring \<times> jsstring) list"
  resultBody :: jsstring

definition string_map :: "(jsstring \<times> jsstring) list \<Rightarrow> jsval" where
  "string_map m = JObj (map (\<lambda>(k, v). (k, JStr v)) m)"

definition nullable_map :: "(jsstring \<times> jsstring) list option \<Rightarrow> jsval" where
  "nullable_map m = (case m of None \<Rightarrow> JNull | Some ps \<Rightarrow> string_map ps)"

definition event_value :: "APIGatewayProxyEvent \<Rightarrow> jsval" where
  \<comment> \<open>the event as the object that \<open>JSON.stringify(event, null, 2)\<close> serialises\<close>
  "event_value ev =
    JObj [(js ''body'', (case body ev of None \<Rightarrow> JNull | Some s \<Rightarrow> JStr s)),
          (js ''headers'', string_map (headers ev)),
          (js ''httpMethod'', JStr (httpMethod ev)),
          (js ''isBase64Encoded'', JBool (isBase64Encoded ev)),
          (js ''path'', JStr (path ev)),
          (js ''pathParameters'', nullable_map (pathParameters ev)),
          (js ''queryStringParameters'', nullable_map (queryStringParameters ev)),
          (js ''stageVariables'', nullable_map (stageVariables ev)),
          (js ''requestContext'', requestContext ev),
          (js ''resource'', JStr (resource ev))]"

record invocation =
  logged :: "jsstring list"
  result :: "error + APIGatewayProxyResult"

definition response_payload :: "jsstring \<Rightarrow> jsstring \<Rightarrow> jsval \<Rightarrow> jsval" where
  \<comment> \<open>the object literal of lines 17 to 22\<close>
  "response_payload timestamp requestId b =
    JObj [(js ''message'', JStr (js ''Hello, World!'')),
          (js ''timestamp'', JStr timestamp),
          (js ''requestId'', JStr requestId),
          (js ''body'', b)]"

text \<open>
  The handler has no \<open>try\<close>: the first error that one of its three calls raises, the
  \<open>RangeError\<close> of \<open>JSON.stringify\<close> at line 5, the \<open>SyntaxError\<close> of \<open>JSON.parse\<close>
  at line 8 or the \<open>RangeError\<close> of \<open>JSON.stringify\<close> at line 17, rejects the promise, and
  nothing after it runs.  \<open>stack\<close> is the room on the stack of the engine, \<open>now\<close> the
  reading of the clock that \<open>new Date()\<close> takes; a rejected promise is \<open>Inl\<close> of the
  error.
\<close>

definition handler :: "nat \<Rightarrow> APIGatewayProxyEvent \<Rightarrow> Context \<Rightarrow> int \<Rightarrow> invocation" where
  "handler stack event context now =
    (case JSON_stringify_spaces stack 2 (event_value event) of
       Inl e \<Rightarrow> \<lparr>logged = [], result = Inl e\<rparr>
     | Inr text \<Rightarrow>
         (let log = [js ''Event: '' @ text];
              parsed = (case body event of
                          None \<Rightarrow> Inr (JObj [])
                        | Some b \<Rightarrow> if b = [] then Inr (JObj []) else JSON_parse b)
          in case parsed of
               Inl e \<Rightarrow> \<lparr>logged = log, result = Inl e\<rparr>
             | Inr b \<Rightarrow>
                 (case JSON_stringify stack
                         (response_payload (toISOString now) (awsRequestId context) b) of
                    Inl e \<Rightarrow> \<lparr>logged = log, result = Inl e\<rparr>
                  | Inr s \<Rightarrow>
                      \<lparr>logged = log,
                       result = Inr \<lparr>statusCode = 200,
                                     resultHeaders =
                                       [(js ''Content-Type'', js ''application/json''),
                                        (js ''Access-Control-Allow-Origin'', js ''*'')],
                                     resultBody = s\<rparr>\<rparr>)))"

subsection \<open>Sample invocations\<close>

definition sample_event :: "jsstring option \<Rightarrow> APIGatewayProxyEvent" where
  "sample_event b =
    \<lparr>body = b, headers = [(js ''Host'', js ''example.com'')], httpMethod = js ''GET'',
     isBase64Encoded = False, path = js ''/'', pathParameters = None,
     queryStringParameters = None, stageVariables = None,
     requestContext = JObj [(js ''stage'', JStr (js ''prod''))], resource = js ''/''\<rparr>"

definition sample_context :: "jsstring \<Rightarrow> Context" where
  "sample_context rid =
    \<lparr>awsRequestId = rid, functionName = js ''HelloHandler'', functionVersion = js ''1'',
     invokedFunctionArn = js ''arn'', memoryLimitInMB = js ''128'',
     logGroupName = js ''group'', logStreamName = js ''stream''\<rparr>"


definition ok_headers :: "(jsstring \<times> jsstring) list" where
  "ok_headers = [(js ''Content-Type'', js ''application/json''),
                 (js ''Access-Control-Allow-Origin'', js ''*'')]"

section \<open>Parsing what was serialised\<close>

subsection \<open>String tokens\<close>

lemma uint_of_int_small: "0 \<le> x \<Longrightarrow> x < 65536 \<Longrightarrow> uint (of_int x :: 16 word) = x"
  by (simp add: uint_word_of_int take_bit_eq_mod)

lemma uint_lt16: "uint (c :: 16 word) < 65536"
  using uint_bounded [of c] by simp

lemma uint_hex_digit:
  "0 \<le> d \<Longrightarrow> d < 16 \<Longrightarrow> uint (hex_digit d) = (if d < 10 then 48 + d else 87 + d)"
  unfolding hex_digit_def by (simp add: uint_of_int_small del: of_int_add)

lemma hex_val_hex_digit: "0 \<le> d \<Longrightarrow> d < 16 \<Longrightarrow> hex_val (hex_digit d) = Some d"
  by (simp add: hex_val_def uint_hex_digit Let_def)

lemma nibbles:
  fixes x :: int
  shows "((x div 4096 * 16 + x div 256 mod 16) * 16 + x div 16 mod 16) * 16 + x mod 16 = x"
proof -
  have a: "x div 256 = x div 16 div 16" and b: "x div 4096 = x div 256 div 16"
    by (simp_all add: zdiv_zmult2_eq)
  have "x div 4096 * 16 + x div 256 mod 16 = x div 256"
    unfolding b by simp
  moreover have "x div 256 * 16 + x div 16 mod 16 = x div 16"
    unfolding a by simp
  ultimately show ?thesis
    by simp
qed

lemma hex4_escape:
  "hex4 (hex_digit (uint c div 4096)) (hex_digit (uint c div 256 mod 16))
        (hex_digit (uint c div 16 mod 16)) (hex_digit (uint c mod 16)) = Some (c :: 16 word)"
proof -
  have d: "0 \<le> uint c div 4096" "uint c div 4096 < 16"
    using uint_lt16 [of c] uint_ge_0 [of c] by arith+
  have "hex4 (hex_digit (uint c div 4096)) (hex_digit (uint c div 256 mod 16))
        (hex_digit (uint c div 16 mod 16)) (hex_digit (uint c mod 16))
     = Some (of_int (((uint c div 4096 * 16 + uint c div 256 mod 16) * 16
                        + uint c div 16 mod 16) * 16 + uint c mod 16))"
    using d by (simp add: hex4_def hex_val_hex_digit del: of_int_add of_int_mult)
  then show ?thesis
    by (simp only: nibbles word_of_int_uint)
qed

lemma parse_closing_quote: "parse_string_chars (0x22 # r) = Some ([], r)"
  by simp

lemma parse_plain_unit:
  "c \<noteq> 0x22 \<Longrightarrow> c \<noteq> 0x5C \<Longrightarrow> 0x20 \<le> uint c \<Longrightarrow>
   parse_string_chars (c # r) = cons_result c (parse_string_chars r)"
  by simp

lemma parse_simple_escape:
  "e \<noteq> 0x75 \<Longrightarrow> unescape e = Some u \<Longrightarrow>
   parse_string_chars (0x5C # e # r) = cons_result u (parse_string_chars r)"
  by simp

lemma parse_hex_escape:
  "hex4 h1 h2 h3 h4 = Some u \<Longrightarrow>
   parse_string_chars (0x5C # 0x75 # h1 # h2 # h3 # h4 # r) = cons_result u (parse_string_chars r)"
  by simp

declare parse_string_chars.simps(2) [simp del]

lemma parse_unicode_escape:
  "parse_string_chars (unicode_escape c @ r) = cons_result c (parse_string_chars r)"
  by (simp add: unicode_escape_def Let_def hex4_escape parse_hex_escape)

lemma parse_quote_unit:
  "parse_string_chars (quote_unit c @ r) = cons_result c (parse_string_chars r)"
proof -
  consider "c = 0x08" | "c = 0x09" | "c = 0x0A" | "c = 0x0C" | "c = 0x0D" | "c = 0x22"
    | "c = 0x5C"
    | "c \<noteq> 0x08" "c \<noteq> 0x09" "c \<noteq> 0x0A" "c \<noteq> 0x0C" "c \<noteq> 0x0D" "c \<noteq> 0x22" "c \<noteq> 0x5C"
      "uint c < 0x20"
    | "c \<noteq> 0x08" "c \<noteq> 0x09" "c \<noteq> 0x0A" "c \<noteq> 0x0C" "c \<noteq> 0x0D" "c \<noteq> 0x22" "c \<noteq> 0x5C"
      "\<not> uint c < 0x20"
    by blast
  then show ?thesis
  proof cases
    case 8
    then show ?thesis by (simp add: quote_unit_def parse_unicode_escape)
  next
    case 9
    then show ?thesis by (simp add: quote_unit_def parse_plain_unit)
  qed (simp_all add: quote_unit_def parse_simple_escape unescape_def)
qed

lemma surrogate_plain:
  "is_high_surrogate c \<or> is_low_surrogate c \<Longrightarrow> c \<noteq> 0x22 \<and> c \<noteq> 0x5C \<and> 0x20 \<le> uint c"
  by (auto simp: is_high_surrogate_def is_low_surrogate_def)

lemma parse_surrogate:
  "is_high_surrogate c \<or> is_low_surrogate c \<Longrightarrow>
   parse_string_chars (c # r) = cons_result c (parse_string_chars r)"
  using surrogate_plain [of c] by (simp add: parse_plain_unit)

lemma parse_quote_units:
  "parse_string_chars (quote_units s @ 0x22 # r) = Some (s, r)"
proof (induction s rule: quote_units.induct)
  case 1
  show ?case by (simp add: parse_closing_quote)
next
  case (2 c)
  show ?case
    by (simp add: parse_unicode_escape parse_quote_unit parse_closing_quote cons_result_def)
next
  case (3 c d cs)
  then show ?case
    by (simp add: parse_unicode_escape parse_quote_unit parse_surrogate cons_result_def)
qed

lemma parse_QuoteJSONString:
  "QuoteJSONString s @ r = 0x22 # quote_units s @ 0x22 # r"
  by (simp add: QuoteJSONString_def)

subsection \<open>Decimal digits\<close>

lemma uint_digit_char: "0 \<le> d \<Longrightarrow> d \<le> 9 \<Longrightarrow> uint (digit_char d) = 48 + d"
  unfolding digit_char_def by (simp add: uint_of_int_small del: of_int_add)

lemma is_digit_digit_char: "0 \<le> d \<Longrightarrow> d \<le> 9 \<Longrightarrow> is_digit (digit_char d)"
  by (simp add: is_digit_def uint_digit_char)

lemma digit_val_digit_char: "0 \<le> d \<Longrightarrow> d \<le> 9 \<Longrightarrow> digit_val (digit_char d) = d"
  by (simp add: digit_val_def uint_digit_char)

lemma digit_char_0: "digit_char 0 = 0x30"
  by (simp add: digit_char_def)

lemma digit_char_eq_0: "0 \<le> d \<Longrightarrow> d \<le> 9 \<Longrightarrow> digit_char d = 0x30 \<longleftrightarrow> d = 0"
proof
  assume b: "0 \<le> d" "d \<le> 9" and "digit_char d = 0x30"
  then have "uint (digit_char d) = 48" by simp
  with b show "d = 0" by (simp add: uint_digit_char)
qed (simp add: digit_char_0)

lemma dec_digits_small: "n < 10 \<Longrightarrow> dec_digits n = [digit_char n]"
  by (simp add: dec_digits.simps)

lemma dec_digits_step:
  "10 \<le> n \<Longrightarrow> dec_digits n = dec_digits (n div 10) @ [digit_char (n mod 10)]"
  by (subst dec_digits.simps) simp

lemma dec_digits_nonempty: "dec_digits n \<noteq> []"
  by (subst dec_digits.simps) simp

lemma digits_val_snoc: "digits_val (ds @ [c]) = 10 * digits_val ds + digit_val c"
  by (simp add: digits_val_def)

lemma digits_val_Nil: "digits_val [] = 0"
  by (simp add: digits_val_def)

lemma digits_val_append:
  "digits_val (xs @ ys) = digits_val xs * 10 ^ length ys + digits_val ys"
proof (induction ys rule: rev_induct)
  case Nil
  show ?case by (simp add: digits_val_Nil)
next
  case (snoc y ys)
  have "digits_val (xs @ ys @ [y]) = 10 * digits_val (xs @ ys) + digit_val y"
    using digits_val_snoc [of "xs @ ys" y] by simp
  then show ?case
    by (simp add: snoc.IH digits_val_snoc algebra_simps)
qed

lemma dec_digits_all_digits: "0 \<le> n \<Longrightarrow> \<forall>c \<in> set (dec_digits n). is_digit c"
proof (induction n rule: dec_digits.induct)
  case (1 n)
  show ?case
  proof (cases "n < 10")
    case True
    with 1 show ?thesis by (simp add: dec_digits_small is_digit_digit_char)
  next
    case False
    then have "0 \<le> n div 10" "0 \<le> n mod 10" "n mod 10 \<le> 9" by simp_all
    with 1 False show ?thesis
      by (auto simp: dec_digits_step is_digit_digit_char)
  qed
qed

lemma digits_val_dec_digits: "0 \<le> n \<Longrightarrow> digits_val (dec_digits n) = n"
proof (induction n rule: dec_digits.induct)
  case (1 n)
  show ?case
  proof (cases "n < 10")
    case True
    with 1 show ?thesis
      using digits_val_snoc [of "[]" "digit_char n"]
      by (simp add: dec_digits_small digit_val_digit_char digits_val_Nil)
  next
    case False
    then have "0 \<le> n div 10" "0 \<le> n mod 10" "n mod 10 \<le> 9" by simp_all
    with 1 False show ?thesis
      by (simp add: dec_digits_step digits_val_snoc digit_val_digit_char)
  qed
qed

lemma hd_dec_digits: "0 < n \<Longrightarrow> hd (dec_digits n) \<noteq> 0x30"
proof (induction n rule: dec_digits.induct)
  case (1 n)
  show ?case
  proof (cases "n < 10")
    case True
    with 1 show ?thesis by (simp add: dec_digits_small digit_char_eq_0)
  next
    case False
    then have "0 < n div 10" by simp
    with 1 False show ?thesis
      by (simp add: dec_digits_step dec_digits_nonempty)
  qed
qed

lemma dec_digits_bounds:
  "0 < n \<Longrightarrow> 10 ^ (length (dec_digits n) - 1) \<le> n \<and> n < 10 ^ length (dec_digits n)"
proof (induction n rule: dec_digits.induct)
  case (1 n)
  show ?case
  proof (cases "n < 10")
    case True
    with 1 show ?thesis by (simp add: dec_digits_small)
  next
    case False
    then have p: "0 < n div 10" by simp
    let ?l = "length (dec_digits (n div 10))"
    from 1 False p have ih: "10 ^ (?l - 1) \<le> n div 10" "n div 10 < 10 ^ ?l"
      by simp_all
    have l: "0 < ?l"
      using dec_digits_nonempty [of "n div 10"] by simp
    have "10 * 10 ^ (?l - 1) \<le> n"
      using ih(1) by linarith
    moreover have "10 * 10 ^ (?l - 1) = (10::int) ^ ?l"
      using l by (cases ?l) simp_all
    moreover have "n < 10 * 10 ^ ?l"
      using ih(2) by linarith
    ultimately show ?thesis
      using False by (simp add: dec_digits_step)
  qed
qed

lemma length_dec_digits_unique:
  assumes "0 < k" and "10 ^ (k - 1) \<le> n" and "n < 10 ^ k"
  shows "length (dec_digits n) = k"
proof -
  have n: "0 < n"
    using assms(2) by (smt (verit) zero_less_power)
  let ?l = "length (dec_digits n)"
  have b: "10 ^ (?l - 1) \<le> n" "n < 10 ^ ?l"
    using dec_digits_bounds [OF n] by simp_all
  have "(10::int) ^ (k - 1) < 10 ^ ?l"
    using assms(2) b(2) by linarith
  then have 1: "k - 1 < ?l"
    by simp
  have "(10::int) ^ (?l - 1) < 10 ^ k"
    using assms(3) b(1) by linarith
  then have "?l - 1 < k"
    by simp
  with 1 assms(1) show ?thesis
    by linarith
qed

subsection \<open>Rounding to a double\<close>

lemma round_half_even_bounds:
  assumes "0 < d"
  shows "n div d \<le> round_half_even n d" and "round_half_even n d \<le> n div d + 1"
  by (simp_all add: round_half_even_def Let_def)

lemma int_div_less:
  fixes n d B :: int
  assumes "0 < d" and "n < B * d"
  shows "n div d < B"
proof (rule ccontr)
  assume "\<not> n div d < B"
  then have "B * d \<le> n div d * d"
    using assms(1) by (simp add: mult_right_mono)
  moreover have "n div d * d + n mod d = n"
    by simp
  moreover have "0 \<le> n mod d"
    using assms(1) by simp
  ultimately show False
    using assms(2) by linarith
qed

lemma round_half_even_exact: "0 < d \<Longrightarrow> round_half_even (M * d) d = M"
  by (simp add: round_half_even_def Let_def)

lemma two_powi_pos: "0 < (2::real) powi u"
  by (simp add: power_int_def)

lemma two_powi_nat: "0 \<le> u \<Longrightarrow> (2::real) powi u = 2 ^ nat u"
  by (simp add: power_int_def)

lemma two_powi_neg: "u < 0 \<Longrightarrow> (2::real) powi u = 1 / 2 ^ nat (- u)"
  by (simp add: power_int_def field_simps)

text \<open>the quotient that scale_round rounds\<close>

lemma scale_round_cases:
  assumes "0 < q"
  obtains n d where "0 < d" "scale_round p q u = round_half_even n d"
    "real_of_int n / real_of_int d = (real_of_int p / real_of_int q) / 2 powi u"
proof (cases "0 \<le> u")
  case True
  have "0 < q * 2 ^ nat u"
    using assms by simp
  moreover have "scale_round p q u = round_half_even p (q * 2 ^ nat u)"
    using True by (simp add: scale_round_def)
  moreover have "real_of_int p / real_of_int (q * 2 ^ nat u)
      = (real_of_int p / real_of_int q) / 2 powi u"
    using True by (simp add: two_powi_nat)
  ultimately show ?thesis
    by (rule that)
next
  case False
  have "scale_round p q u = round_half_even (p * 2 ^ nat (- u)) q"
    using False by (simp add: scale_round_def)
  moreover have "real_of_int (p * 2 ^ nat (- u)) / real_of_int q
      = (real_of_int p / real_of_int q) / 2 powi u"
    using False by (simp add: two_powi_neg)
  ultimately show ?thesis
    using assms by (rule that [rotated])
qed

lemma scale_round_exact:
  assumes "0 < q" and "real_of_int p / real_of_int q = real_of_int M * 2 powi u"
  shows "scale_round p q u = M"
proof -
  obtain n d where d: "0 < d" and s: "scale_round p q u = round_half_even n d"
    and r: "real_of_int n / real_of_int d = (real_of_int p / real_of_int q) / 2 powi u"
    using scale_round_cases [OF assms(1)] by blast
  have "real_of_int n / real_of_int d = real_of_int M"
    using r assms(2) two_powi_pos [of u] by simp
  then have "real_of_int n = real_of_int (M * d)"
    using d by (simp add: field_simps)
  then have "n = M * d"
    by (simp only: of_int_eq_iff)
  then show ?thesis
    using s d by (simp add: round_half_even_exact)
qed

lemma scale_round_upper:
  assumes "0 < q" and "real_of_int p / real_of_int q < real_of_int B * 2 powi u"
  shows "scale_round p q u \<le> B"
proof -
  obtain n d where d: "0 < d" and s: "scale_round p q u = round_half_even n d"
    and r: "real_of_int n / real_of_int d = (real_of_int p / real_of_int q) / 2 powi u"
    using scale_round_cases [OF assms(1)] by blast
  have "(real_of_int p / real_of_int q) / 2 powi u < real_of_int B"
    by (simp only: pos_divide_less_eq [OF two_powi_pos] assms(2))
  then have "real_of_int n / real_of_int d < real_of_int B"
    by (simp only: r)
  then have "real_of_int n < real_of_int (B * d)"
    using d by (simp add: field_simps)
  then have "n < B * d"
    by (simp only: of_int_less_iff)
  then have "n div d < B"
    using d by (simp add: int_div_less)
  then show ?thesis
    using s round_half_even_bounds(2) [OF d, of n] by simp
qed

lemma scale_round_nonneg:
  assumes "0 < q" and "0 \<le> p"
  shows "0 \<le> scale_round p q u"
proof -
  have "0 \<le> round_half_even n d" if "0 < d" "0 \<le> n" for n d :: int
  proof -
    have "0 \<le> n div d"
      using that by (simp add: pos_imp_zdiv_nonneg_iff)
    then show ?thesis
      using round_half_even_bounds(1) [OF that(1), of n] by linarith
  qed
  then show ?thesis
    using assms by (simp add: scale_round_def)
qed

lemma bitlen_pos: "0 < x \<Longrightarrow> 1 \<le> bitlen x"
  using bitlen_eq_zero_iff [of x] bitlen_nonneg [of x] by linarith

lemma int_div_mult_bounds:
  fixes a b :: int
  assumes "0 < b"
  shows "a div b * b \<le> a" and "a < (a div b + 1) * b"
proof -
  have e: "a div b * b + a mod b = a"
    by simp
  have m: "0 \<le> a mod b" "a mod b < b"
    using assms by simp_all
  show "a div b * b \<le> a"
    using e m by linarith
  have "(a div b + 1) * b = a div b * b + b"
    by (simp add: algebra_simps)
  then show "a < (a div b + 1) * b"
    using e m by linarith
qed

lemma div_positive_int:
  fixes k l :: int
  assumes "l \<le> k" and "0 < l"
  shows "0 < k div l"
  using assms by (simp add: pos_imp_zdiv_pos_iff)

lemma floor_log2_int_ge:
  assumes "0 < p" and "0 < q" and "q \<le> p"
  shows "2 ^ nat (floor_log2 p q) * q \<le> p" and "p < 2 ^ nat (floor_log2 p q + 1) * q"
    and "0 \<le> floor_log2 p q"
proof -
  let ?f = "p div q"
  have f: "0 < ?f"
    using assms by (simp add: div_positive_int)
  have E: "floor_log2 p q = bitlen ?f - 1"
    using assms by (simp add: floor_log2_def)
  have b: "1 \<le> bitlen ?f"
    using f by (rule bitlen_pos)
  show "0 \<le> floor_log2 p q"
    using E b by simp
  have lo: "2 ^ nat (bitlen ?f - 1) \<le> ?f" and hi: "?f < 2 ^ nat (bitlen ?f)"
    using bitlen_bounds [OF f] by simp_all
  have "2 ^ nat (bitlen ?f - 1) * q \<le> ?f * q"
    using lo assms(2) by (simp add: mult_right_mono)
  also have "\<dots> \<le> p"
    using int_div_mult_bounds(1) [OF assms(2)] .
  finally show "2 ^ nat (floor_log2 p q) * q \<le> p"
    by (simp add: E)
  have "p < (?f + 1) * q"
    using int_div_mult_bounds(2) [OF assms(2)] .
  also have "\<dots> \<le> 2 ^ nat (bitlen ?f) * q"
    using hi assms(2) by (simp add: mult_right_mono)
  finally show "p < 2 ^ nat (floor_log2 p q + 1) * q"
    by (simp add: E)
qed

lemma floor_log2_int_less:
  assumes "0 < p" and "0 < q" and "p < q"
  shows "q \<le> p * 2 ^ nat (- floor_log2 p q)" and "p * 2 ^ nat (- floor_log2 p q - 1) < q"
    and "floor_log2 p q < 0"
proof -
  let ?f = "(q - 1) div p"
  have f: "0 < ?f"
    using assms by (simp add: div_positive_int)
  have E: "floor_log2 p q = - bitlen ?f"
    using assms by (simp add: floor_log2_def)
  have b: "1 \<le> bitlen ?f"
    using f by (rule bitlen_pos)
  show "floor_log2 p q < 0"
    using E b by simp
  have lo: "2 ^ nat (bitlen ?f - 1) \<le> ?f" and hi: "?f < 2 ^ nat (bitlen ?f)"
    using bitlen_bounds [OF f] by simp_all
  have "q - 1 < (?f + 1) * p"
    using int_div_mult_bounds(2) [OF assms(1)] .
  also have "\<dots> \<le> 2 ^ nat (bitlen ?f) * p"
    using hi assms(1) by (simp add: mult_right_mono)
  finally show "q \<le> p * 2 ^ nat (- floor_log2 p q)"
    by (simp add: E mult.commute)
  have "2 ^ nat (bitlen ?f - 1) * p \<le> ?f * p"
    using lo assms(1) by (simp add: mult_right_mono)
  also have "\<dots> \<le> q - 1"
    using int_div_mult_bounds(1) [OF assms(1)] .
  finally show "p * 2 ^ nat (- floor_log2 p q - 1) < q"
    by (simp add: E mult.commute)
qed

lemma floor_log2_bounds:
  assumes "0 < p" and "0 < q"
  shows "2 powi (floor_log2 p q) \<le> real_of_int p / real_of_int q"
    and "real_of_int p / real_of_int q < 2 powi (floor_log2 p q + 1)"
proof -
  let ?E = "floor_log2 p q"
  have q: "0 < real_of_int q" and p: "0 < real_of_int p"
    using assms by simp_all
  show "2 powi ?E \<le> real_of_int p / real_of_int q"
  proof (cases "q \<le> p")
    case True
    have "real_of_int (2 ^ nat ?E * q) \<le> real_of_int p"
      using floor_log2_int_ge(1) [OF assms True] by (simp only: of_int_le_iff)
    then have "2 ^ nat ?E * real_of_int q \<le> real_of_int p"
      by simp
    then have "2 ^ nat ?E \<le> real_of_int p / real_of_int q"
      by (simp only: pos_le_divide_eq [OF q])
    then show ?thesis
      using floor_log2_int_ge(3) [OF assms True] by (simp only: two_powi_nat)
  next
    case False
    then have l: "p < q" by simp
    have "real_of_int q \<le> real_of_int (p * 2 ^ nat (- ?E))"
      using floor_log2_int_less(1) [OF assms l] by (simp only: of_int_le_iff)
    then have "real_of_int q \<le> real_of_int p * 2 ^ nat (- ?E)"
      by simp
    then have "real_of_int q / 2 ^ nat (- ?E) \<le> real_of_int p"
      by (simp only: pos_divide_le_eq [of "2 ^ nat (- ?E)", OF zero_less_power [OF zero_less_numeral]])
    then have "1 / 2 ^ nat (- ?E) * real_of_int q \<le> real_of_int p"
      by simp
    then have "1 / 2 ^ nat (- ?E) \<le> real_of_int p / real_of_int q"
      by (simp only: pos_le_divide_eq [OF q])
    then show ?thesis
      using floor_log2_int_less(3) [OF assms l] by (simp only: two_powi_neg)
  qed
  show "real_of_int p / real_of_int q < 2 powi (?E + 1)"
  proof (cases "q \<le> p")
    case True
    have "real_of_int p < real_of_int (2 ^ nat (?E + 1) * q)"
      using floor_log2_int_ge(2) [OF assms True] by (simp only: of_int_less_iff)
    then have "real_of_int p < 2 ^ nat (?E + 1) * real_of_int q"
      by simp
    then have "real_of_int p / real_of_int q < 2 ^ nat (?E + 1)"
      by (simp only: pos_divide_less_eq [OF q])
    moreover have "0 \<le> ?E + 1"
      using floor_log2_int_ge(3) [OF assms True] by simp
    ultimately show ?thesis
      by (simp only: two_powi_nat)
  next
    case False
    then have l: "p < q" by simp
    let ?n = "nat (- ?E - 1)"
    have "real_of_int (p * 2 ^ ?n) < real_of_int q"
      using floor_log2_int_less(2) [OF assms l] by (simp only: of_int_less_iff)
    then have "real_of_int p * 2 ^ ?n < real_of_int q"
      by simp
    then have "real_of_int p < real_of_int q / 2 ^ ?n"
      by (simp only: pos_less_divide_eq [of "2 ^ ?n", OF zero_less_power [OF zero_less_numeral]])
    then have "real_of_int p < 1 / 2 ^ ?n * real_of_int q"
      by simp
    then have *: "real_of_int p / real_of_int q < 1 / 2 ^ ?n"
      by (simp only: pos_divide_less_eq [OF q])
    show ?thesis
    proof (cases "?E + 1 < 0")
      case True
      then have "?n = nat (- (?E + 1))" by simp
      with * True show ?thesis by (simp only: two_powi_neg)
    next
      case False
      then have "?E + 1 = 0"
        using floor_log2_int_less(3) [OF assms l] by simp
      with * show ?thesis by simp
    qed
  qed
qed

lemma norm_odd_nonpos: "m \<le> 0 \<Longrightarrow> norm_odd m e = (0, 0)"
  by (simp add: norm_odd.simps)

lemma norm_odd_odd: "0 < m \<Longrightarrow> odd m \<Longrightarrow> norm_odd m e = (m, e)"
  by (simp add: norm_odd.simps)

lemma norm_odd_even: "0 < m \<Longrightarrow> even m \<Longrightarrow> norm_odd m e = norm_odd (m div 2) (e + 1)"
  by (subst norm_odd.simps) simp

lemma norm_odd_pow2: "0 < m \<Longrightarrow> odd m \<Longrightarrow> norm_odd (m * 2 ^ j) e = (m, e + int j)"
proof (induction j arbitrary: e)
  case 0
  then show ?case by (simp add: norm_odd_odd)
next
  case (Suc j)
  have "0 < m * 2 ^ Suc j" "even (m * 2 ^ Suc j)"
    using Suc.prems by simp_all
  then have "norm_odd (m * 2 ^ Suc j) e = norm_odd (m * 2 ^ Suc j div 2) (e + 1)"
    by (rule norm_odd_even)
  also have "m * 2 ^ Suc j div 2 = m * 2 ^ j"
    by simp
  finally show ?case
    using Suc.IH [OF Suc.prems, of "e + 1"] by simp
qed

lemma norm_odd_props:
  assumes "0 < m" and "norm_odd m e = (m', e')"
  shows "0 < m' \<and> odd m' \<and> e \<le> e' \<and> m = m' * 2 ^ nat (e' - e)"
  using assms
proof (induction m e rule: norm_odd.induct)
  case (1 m e)
  show ?case
  proof (cases "even m")
    case True
    have h: "0 < m div 2"
      using True "1.prems"(1) by (simp add: pos_imp_zdiv_pos_iff) presburger
    have "norm_odd (m div 2) (e + 1) = (m', e')"
      using "1.prems" True by (simp add: norm_odd_even)
    with "1.IH" True "1.prems"(1) h
    have ih: "0 < m'" "odd m'" "e + 1 \<le> e'" "m div 2 = m' * 2 ^ nat (e' - (e + 1))"
      by simp_all
    have "nat (e' - e) = Suc (nat (e' - (e + 1)))"
      using ih(3) by simp
    moreover have "m = 2 * (m div 2)"
      using True by simp
    ultimately have "m = m' * 2 ^ nat (e' - e)"
      using ih(4) by simp
    with ih show ?thesis by simp
  next
    case False
    with "1.prems" show ?thesis by (simp add: norm_odd_odd)
  qed
qed

lemma bitlen_norm_odd:
  assumes "0 < m" and "norm_odd m e = (m', e')"
  shows "bitlen m' + e' = bitlen m + e"
proof -
  from norm_odd_props [OF assms]
  have p: "0 < m'" "e \<le> e'" "m = m' * 2 ^ nat (e' - e)" by simp_all
  have "bitlen m = bitlen m' + int (nat (e' - e))"
    unfolding p(3) using p(1) by (rule bitlen_pow2)
  with p(2) show ?thesis by simp
qed

lemma two_powi_add: "(2::real) powi (a + b) = 2 powi a * 2 powi b"
  by (simp add: power_int_add)

lemma two_powi_mono: "a \<le> b \<Longrightarrow> (2::real) powi a \<le> 2 powi b"
  by (rule power_int_increasing) simp_all

lemma two_powi_less_imp: "(2::real) powi a < 2 powi b \<Longrightarrow> a < b"
proof (rule ccontr)
  assume l: "(2::real) powi a < 2 powi b" and "\<not> a < b"
  then have "(2::real) powi b \<le> 2 powi a"
    by (simp add: two_powi_mono)
  with l show False by simp
qed

lemma scale_round_53:
  assumes "0 < p" and "0 < q"
  shows "scale_round p q (max (floor_log2 p q - 52) (- 1074)) \<le> 2 ^ 53"
proof -
  let ?E = "floor_log2 p q"
  let ?u = "max (?E - 52) (- 1074)"
  have "real_of_int p / real_of_int q < 2 powi (?E + 1)"
    using floor_log2_bounds(2) [OF assms] .
  also have "\<dots> \<le> 2 powi (53 + ?u)"
    by (rule two_powi_mono) simp
  also have "\<dots> = real_of_int (2 ^ 53) * 2 powi ?u"
    by (simp only: two_powi_add) simp
  finally show ?thesis
    by (rule scale_round_upper [OF assms(2)])
qed

lemma round_to_double_is_double:
  assumes "0 < q"
  shows "is_double (round_to_double neg p q)"
proof (cases "p \<le> 0")
  case True
  then show ?thesis
    by (simp add: round_to_double_def is_double_def)
next
  case False
  then have p: "0 < p" by simp
  let ?u = "max (floor_log2 p q - 52) (- 1074)"
  let ?m = "scale_round p q ?u"
  have m53: "?m \<le> 2 ^ 53"
    using scale_round_53 [OF p assms] .
  have m0: "0 \<le> ?m"
    using scale_round_nonneg [OF assms, of p ?u] p by simp
  show ?thesis
  proof (cases "1024 < bitlen ?m + ?u")
    case True
    with p show ?thesis
      by (simp add: round_to_double_def is_double_def Let_def)
  next
    case nov: False
    show ?thesis
    proof (cases "?m = 0")
      case True
      with p nov show ?thesis
        by (simp add: round_to_double_def is_double_def Let_def norm_odd_nonpos)
    next
      case False
      with m0 have mpos: "0 < ?m" by simp
      obtain m' e' where n: "norm_odd ?m ?u = (m', e')"
        by (cases "norm_odd ?m ?u")
      from norm_odd_props [OF mpos n]
      have pr: "0 < m'" "odd m'" "?u \<le> e'" "?m = m' * 2 ^ nat (e' - ?u)"
        by simp_all
      have "m' * 1 \<le> m' * 2 ^ nat (e' - ?u)"
        using pr(1) by (intro mult_left_mono) simp_all
      then have "m' \<le> 2 ^ 53"
        using pr(4) m53 by simp
      moreover have "m' \<noteq> 2 ^ 53"
        using pr(2) by auto
      ultimately have lt: "m' < 2 ^ 53"
        by simp
      have "bitlen m' + e' \<le> 1024"
        using bitlen_norm_odd [OF mpos n] nov by simp
      moreover have "- 1074 \<le> e'"
        using pr(3) by simp
      ultimately have "is_double (Finite neg m' e')"
        using pr(1,2) lt by (simp add: is_double_def)
      moreover have "round_to_double neg p q = Finite neg m' e'"
        using p nov n by (simp add: round_to_double_def Let_def)
      ultimately show ?thesis by simp
    qed
  qed
qed

lemma round_to_double_exact:
  assumes "0 < p" and "0 < q"
    and v: "real_of_int p / real_of_int q = real_of_int m * 2 powi e"
    and m: "0 < m" "odd m" "m < 2 ^ 53" and e: "- 1074 \<le> e" and b: "bitlen m + e \<le> 1024"
  shows "round_to_double neg p q = Finite neg m e"
proof -
  let ?E = "floor_log2 p q"
  let ?u = "max (?E - 52) (- 1074)"
  let ?b = "bitlen m"
  have bb: "2 ^ nat (?b - 1) \<le> m" "m < 2 ^ nat ?b" and b1: "1 \<le> ?b"
    using bitlen_bounds [OF m(1)] bitlen_pos [OF m(1)] by simp_all
  have b53: "?b \<le> 53"
    using m(3) by (simp add: bitlen_le_iff_power)
  have lo: "2 powi (?b - 1 + e) \<le> real_of_int p / real_of_int q"
  proof -
    have "real_of_int (2 ^ nat (?b - 1)) \<le> real_of_int m"
      using bb(1) by (simp only: of_int_le_iff)
    then have "2 powi (?b - 1) \<le> real_of_int m"
      using b1 by (simp add: two_powi_nat)
    then have "2 powi (?b - 1) * 2 powi e \<le> real_of_int m * 2 powi e"
      using two_powi_pos [of e] by (simp add: mult_right_mono)
    then show ?thesis
      by (simp only: v two_powi_add)
  qed
  have hi: "real_of_int p / real_of_int q < 2 powi (?b + e)"
  proof -
    have "real_of_int m < real_of_int (2 ^ nat ?b)"
      using bb(2) by (simp only: of_int_less_iff)
    then have "real_of_int m < 2 powi ?b"
      using b1 by (simp add: two_powi_nat)
    then have "real_of_int m * 2 powi e < 2 powi ?b * 2 powi e"
      using two_powi_pos [of e] by (simp add: mult_strict_right_mono)
    then show ?thesis
      by (simp only: v two_powi_add)
  qed
  have "2 powi ?E < (2::real) powi (?b + e)"
    using floor_log2_bounds(1) [OF assms(1,2)] hi by linarith
  then have 1: "?E < ?b + e"
    by (rule two_powi_less_imp)
  have "2 powi (?b - 1 + e) < (2::real) powi (?E + 1)"
    using floor_log2_bounds(2) [OF assms(1,2)] lo by linarith
  then have 2: "?b - 1 + e < ?E + 1"
    by (rule two_powi_less_imp)
  have E: "?E = ?b - 1 + e"
    using 1 2 by simp
  have ue: "?u \<le> e"
    using E b53 e by simp
  let ?j = "nat (e - ?u)"
  have "real_of_int (m * 2 ^ ?j) * 2 powi ?u = real_of_int m * (2 powi (e - ?u) * 2 powi ?u)"
    using ue by (simp add: two_powi_nat)
  also have "\<dots> = real_of_int m * 2 powi e"
    by (simp only: two_powi_add [symmetric]) simp
  finally have "real_of_int (m * 2 ^ ?j) * 2 powi ?u = real_of_int p / real_of_int q"
    by (simp only: v)
  then have "real_of_int p / real_of_int q = real_of_int (m * 2 ^ ?j) * 2 powi ?u"
    by (rule sym)
  then have sr: "scale_round p q ?u = m * 2 ^ ?j"
    by (rule scale_round_exact [OF assms(2)])
  have "bitlen (m * 2 ^ ?j) = ?b + int ?j"
    using m(1) by (rule bitlen_pow2)
  then have nov: "\<not> 1024 < bitlen (m * 2 ^ ?j) + ?u"
    using ue b by simp
  have "norm_odd (m * 2 ^ ?j) ?u = (m, ?u + int ?j)"
    using m(1,2) by (rule norm_odd_pow2)
  then have "norm_odd (m * 2 ^ ?j) ?u = (m, e)"
    using ue by simp
  then show ?thesis
    using assms(1) sr nov by (simp add: round_to_double_def Let_def)
qed

subsection \<open>Decimal literals\<close>

lemma ten_powi_nat: "0 \<le> x \<Longrightarrow> (10::real) powi x = 10 ^ nat x"
  by (simp add: power_int_def)

lemma ten_powi_neg: "x < 0 \<Longrightarrow> (10::real) powi x = 1 / 10 ^ nat (- x)"
  by (simp add: power_int_def field_simps)

lemma decimal_to_double_is_double: "is_double (decimal_to_double neg d x)"
  by (simp add: decimal_to_double_def round_to_double_is_double)

lemma decimal_to_double_exact:
  assumes "0 < d"
    and v: "real_of_int d * 10 powi x = real_of_int m * 2 powi e"
    and m: "0 < m" "odd m" "m < 2 ^ 53" and e: "- 1074 \<le> e" and b: "bitlen m + e \<le> 1024"
  shows "decimal_to_double neg d x = Finite neg m e"
proof (cases "0 \<le> x")
  case True
  have "real_of_int (d * 10 ^ nat x) / real_of_int 1 = real_of_int m * 2 powi e"
    using v True by (simp add: ten_powi_nat)
  moreover have "0 < d * 10 ^ nat x"
    using assms(1) by simp
  ultimately have "round_to_double neg (d * 10 ^ nat x) 1 = Finite neg m e"
    using m e b by (intro round_to_double_exact) simp_all
  with True show ?thesis
    by (simp add: decimal_to_double_def)
next
  case False
  have "real_of_int d / real_of_int (10 ^ nat (- x)) = real_of_int m * 2 powi e"
    using v False by (simp add: ten_powi_neg)
  moreover have "(0::int) < 10 ^ nat (- x)"
    by simp
  ultimately have "round_to_double neg d (10 ^ nat (- x)) = Finite neg m e"
    using m e b assms(1) by (intro round_to_double_exact) simp_all
  with False show ?thesis
    by (simp add: decimal_to_double_def)
qed

lemma round_to_double_sign:
  "round_to_double neg p q =
    (case round_to_double False p q of
       Finite s m e \<Rightarrow> Finite neg m e | Infinity s \<Rightarrow> Infinity neg | NaN \<Rightarrow> NaN)"
  by (simp add: round_to_double_def Let_def split: prod.splits)

lemma decimal_to_double_sign:
  "decimal_to_double False d x = Finite False m e \<Longrightarrow> decimal_to_double neg d x = Finite neg m e"
  unfolding decimal_to_double_def
  by (simp add: round_to_double_sign [of neg] split: if_splits)

lemma decimal_to_double_zero: "decimal_to_double neg 0 x = Finite neg 0 0"
  by (simp add: decimal_to_double_def round_to_double_def)

lemma decimal_to_double_shift:
  "decimal_to_double neg (d * 10 ^ j) 0 = decimal_to_double neg d (int j)"
  by (simp add: decimal_to_double_def)

lemma exact_decimal_value:
  assumes "exact_decimal m e = (N, t)" and "0 < m"
  shows "0 < N" and "real_of_int N * 10 powi t = real_of_int m * 2 powi e"
proof -
  show "0 < N"
    using assms by (auto simp: exact_decimal_def split: if_splits)
  show "real_of_int N * 10 powi t = real_of_int m * 2 powi e"
  proof (cases "0 \<le> e")
    case True
    with assms(1) have "N = m * 2 ^ nat e" "t = 0"
      by (simp_all add: exact_decimal_def)
    with True show ?thesis
      by (simp add: two_powi_nat)
  next
    case False
    with assms(1) have N: "N = m * 5 ^ nat (- e)" and t: "t = e"
      by (auto simp: exact_decimal_def)
    let ?k = "nat (- e)"
    have "(10::real) ^ ?k = 5 ^ ?k * 2 ^ ?k"
      by (simp flip: power_mult_distrib)
    then have "real_of_int N * 10 powi t = real_of_int m * (5 ^ ?k / (5 ^ ?k * 2 ^ ?k))"
      using False by (simp add: N t ten_powi_neg)
    also have "\<dots> = real_of_int m * (1 / 2 ^ ?k)"
      by simp
    finally show ?thesis
      using False by (simp add: two_powi_neg)
  qed
qed

subsection \<open>The digits of Number::toString\<close>

lemma digits_prefix_bounds:
  assumes N: "0 < N" and L: "L = int (length (dec_digits N))" and k: "1 \<le> k" "k < L"
  shows "10 ^ nat (k - 1) \<le> N div 10 ^ nat (L - k)" and "N div 10 ^ nat (L - k) < 10 ^ nat k"
proof -
  let ?w = "(10::int) ^ nat (L - k)"
  have w: "0 < ?w" by simp
  have b: "10 ^ (nat L - 1) \<le> N" "N < 10 ^ nat L"
    using dec_digits_bounds [OF N] L by simp_all
  have "nat L - 1 = nat (k - 1) + nat (L - k)"
    using k by simp
  then have "(10::int) ^ (nat L - 1) = 10 ^ nat (k - 1) * ?w"
    by (simp add: power_add)
  then have "10 ^ nat (k - 1) * ?w \<le> N"
    using b(1) by simp
  then have "10 ^ nat (k - 1) * ?w div ?w \<le> N div ?w"
    using w by (intro zdiv_mono1)
  then show "10 ^ nat (k - 1) \<le> N div ?w"
    by simp
  have "nat L = nat k + nat (L - k)"
    using k by simp
  then have "(10::int) ^ nat L = 10 ^ nat k * ?w"
    by (simp add: power_add)
  then have "N < 10 ^ nat k * ?w"
    using b(2) by simp
  then show "N div ?w < 10 ^ nat k"
    using w by (intro int_div_less)
qed

lemma length_dec_digits_int:
  assumes "1 \<le> k" and "10 ^ nat (k - 1) \<le> s" and "s < 10 ^ nat k"
  shows "int (length (dec_digits s)) = k"
proof -
  have "length (dec_digits s) = nat k"
  proof (rule length_dec_digits_unique)
    show "0 < nat k" using assms(1) by simp
    have "nat k - 1 = nat (k - 1)" using assms(1) by simp
    then show "10 ^ (nat k - 1) \<le> s" using assms(2) by simp
    show "s < 10 ^ nat k" by (rule assms(3))
  qed
  then show ?thesis using assms(1) by simp
qed

lemma pick_candidate_cases:
  "pick_candidate a b f x y = Some c \<Longrightarrow> c = x \<and> a \<or> c = y \<and> b"
  by (auto simp: pick_candidate_def split: if_splits)

lemma best_candidate_cases:
  assumes "best_candidate m e N L t k = Some c"
  shows "(c = lo_candidate N L t k \<or> c = hi_candidate N L t k) \<and> rounds_to m e k c"
proof -
  have "c = lo_candidate N L t k \<and> rounds_to m e k (lo_candidate N L t k)
      \<or> c = hi_candidate N L t k \<and> rounds_to m e k (hi_candidate N L t k)"
    using assms unfolding best_candidate_def Let_def by (rule pick_candidate_cases)
  then show ?thesis by blast
qed

lemma lo_candidate_digits:
  assumes "0 < N" and "L = int (length (dec_digits N))" and "1 \<le> k" "k < L"
  shows "10 ^ nat (k - 1) \<le> fst (lo_candidate N L t k)"
    and "fst (lo_candidate N L t k) < 10 ^ nat k"
  using digits_prefix_bounds [OF assms] by (simp_all add: lo_candidate_def)

lemma hi_candidate_digits:
  assumes "0 < N" and "L = int (length (dec_digits N))" and "1 \<le> k" "k < L"
  shows "10 ^ nat (k - 1) \<le> fst (hi_candidate N L t k)"
    and "fst (hi_candidate N L t k) < 10 ^ nat k"
proof -
  let ?hi = "N div 10 ^ nat (L - k) + 1"
  have lo: "10 ^ nat (k - 1) \<le> ?hi - 1"
    using digits_prefix_bounds(1) [OF assms] by simp
  have lt: "(10::int) ^ nat (k - 1) < 10 ^ nat k"
    using assms(3) by (intro power_strict_increasing) simp_all
  show "10 ^ nat (k - 1) \<le> fst (hi_candidate N L t k)"
  proof (cases "?hi < 10 ^ nat k")
    case True
    then have "fst (hi_candidate N L t k) = ?hi"
      by (simp add: hi_candidate_def Let_def)
    with lo show ?thesis by linarith
  next
    case False
    then have "fst (hi_candidate N L t k) = 10 ^ nat (k - 1)"
      by (simp add: hi_candidate_def Let_def)
    then show ?thesis by simp
  qed
  show "fst (hi_candidate N L t k) < 10 ^ nat k"
  proof (cases "?hi < 10 ^ nat k")
    case True
    then have "fst (hi_candidate N L t k) = ?hi"
      by (simp add: hi_candidate_def Let_def)
    with True show ?thesis by linarith
  next
    case False
    then have "fst (hi_candidate N L t k) = 10 ^ nat (k - 1)"
      by (simp add: hi_candidate_def Let_def)
    with lt show ?thesis by linarith
  qed
qed

lemma best_candidate_sound:
  assumes bc: "best_candidate m e N L t k = Some (s, n)"
    and N: "0 < N" and L: "L = int (length (dec_digits N))" and k: "1 \<le> k" "k < L"
  shows "0 < s \<and> int (length (dec_digits s)) = k
         \<and> decimal_to_double False s (n - k) = Finite False m e"
proof -
  from best_candidate_cases [OF bc]
  have c: "(s, n) = lo_candidate N L t k \<or> (s, n) = hi_candidate N L t k"
    and r: "rounds_to m e k (s, n)"
    by simp_all
  have b: "10 ^ nat (k - 1) \<le> s \<and> s < 10 ^ nat k"
  proof -
    from c show ?thesis
    proof
      assume "(s, n) = lo_candidate N L t k"
      then have "s = fst (lo_candidate N L t k)"
        by (metis fst_conv)
      then show ?thesis
        using lo_candidate_digits [OF N L k, of t] by simp
    next
      assume "(s, n) = hi_candidate N L t k"
      then have "s = fst (hi_candidate N L t k)"
        by (metis fst_conv)
      then show ?thesis
        using hi_candidate_digits [OF N L k, of t] by simp
    qed
  qed
  have "(0::int) < 10 ^ nat (k - 1)" by simp
  with b have "0 < s" by linarith
  moreover have "int (length (dec_digits s)) = k"
    using k(1) b by (intro length_dec_digits_int) simp_all
  moreover have "decimal_to_double False s (n - k) = Finite False m e"
    using r by (simp add: rounds_to_def)
  ultimately show ?thesis by simp
qed

lemma shortest_digits_sound:
  assumes "shortest_digits m e N L t k = (s, n)"
    and "0 < N" and "L = int (length (dec_digits N))" and "1 \<le> k"
    and "decimal_to_double False N t = Finite False m e"
  shows "0 < s \<and> decimal_to_double False s (n - int (length (dec_digits s))) = Finite False m e"
  using assms
proof (induction m e N L t k rule: shortest_digits.induct)
  case (1 m e N L t k)
  show ?case
  proof (cases "L \<le> k")
    case True
    with "1.prems"(1) have "s = N" "n = L + t"
      by (simp_all add: shortest_digits.simps)
    with "1.prems" show ?thesis by simp
  next
    case False
    then have kL: "k < L" by simp
    show ?thesis
    proof (cases "best_candidate m e N L t k")
      case None
      with False "1.prems"(1) have "shortest_digits m e N L t (k + 1) = (s, n)"
        by (simp add: shortest_digits.simps [of m e N L t k])
      with "1.IH" [OF False None] "1.prems" show ?thesis by simp
    next
      case (Some c)
      with False "1.prems"(1) have "c = (s, n)"
        by (simp add: shortest_digits.simps [of m e N L t k])
      with Some have "best_candidate m e N L t k = Some (s, n)" by simp
      from best_candidate_sound [OF this "1.prems"(2,3,4) kL] show ?thesis by simp
    qed
  qed
qed

subsection \<open>Number tokens\<close>

lemma takeWhile_digits:
  assumes "\<forall>c \<in> set ds. is_digit c" and "r = [] \<or> \<not> is_digit (hd r)"
  shows "takeWhile is_digit (ds @ r) = ds" and "dropWhile is_digit (ds @ r) = r"
proof -
  have t: "takeWhile is_digit r = []" and d: "dropWhile is_digit r = r"
    using assms(2) by (cases r; simp)+
  show "takeWhile is_digit (ds @ r) = ds"
    using assms(1) t by (simp add: takeWhile_append2)
  show "dropWhile is_digit (ds @ r) = r"
    using assms(1) d by (simp add: dropWhile_append2)
qed

lemma number_ends_nondigit: "number_ends r \<Longrightarrow> r = [] \<or> \<not> is_digit (hd r)"
  by (cases r) (simp_all add: number_ends_def)

lemma not_digit_chars: "\<not> is_digit 0x2E" "\<not> is_digit 0x65" "\<not> is_digit 0x2D" "\<not> is_digit 0x2B"
  "is_digit 0x30"
  by (simp_all add: is_digit_def)

lemma parse_fraction_none: "number_ends r \<Longrightarrow> parse_fraction r = Some ([], r)"
  by (cases r) (simp_all add: parse_fraction_def number_ends_def)

lemma parse_fraction_e: "parse_fraction (0x65 # r) = Some ([], 0x65 # r)"
  by (simp add: parse_fraction_def)

lemma parse_fraction_digits:
  assumes "ds \<noteq> []" and "\<forall>c \<in> set ds. is_digit c" and "r = [] \<or> \<not> is_digit (hd r)"
  shows "parse_fraction (0x2E # ds @ r) = Some (ds, r)"
  using assms(1) takeWhile_digits [OF assms(2,3)] by (simp add: parse_fraction_def)

lemma parse_exponent_part_none: "number_ends r \<Longrightarrow> parse_exponent_part r = Some (0, r)"
  by (cases r) (simp_all add: parse_exponent_part_def number_ends_def)

lemma parse_exponent_signed:
  assumes "r = [] \<or> \<not> is_digit (hd r)"
  shows "parse_exponent_part (0x65 # (if 0 < x then 0x2B else 0x2D) # dec_digits \<bar>x\<bar> @ r)
         = Some (x, r)"
proof -
  have a: "\<forall>c \<in> set (dec_digits \<bar>x\<bar>). is_digit c"
    by (rule dec_digits_all_digits) simp
  have v: "digits_val (dec_digits \<bar>x\<bar>) = \<bar>x\<bar>"
    by (rule digits_val_dec_digits) simp
  note tw = takeWhile_digits [OF a assms]
  show ?thesis
  proof (cases "0 < x")
    case True
    then show ?thesis
      using tw v dec_digits_nonempty [of "\<bar>x\<bar>"]
      by (simp add: parse_exponent_part_def parse_exponent_def)
  next
    case False
    then show ?thesis
      using tw v dec_digits_nonempty [of "\<bar>x\<bar>"]
      by (simp add: parse_exponent_part_def parse_exponent_def)
  qed
qed

lemma parse_unsigned_parts:
  assumes "ip \<noteq> []" and "\<forall>c \<in> set ip. is_digit c" and "hd ip \<noteq> 0x30 \<or> length ip = 1"
    and "r1 = [] \<or> \<not> is_digit (hd r1)"
    and "parse_fraction r1 = Some (fp, r2)" and "parse_exponent_part r2 = Some (ex, r3)"
  shows "parse_unsigned neg (ip @ r1)
         = Some (decimal_to_double neg (digits_val (ip @ fp)) (ex - int (length fp)), r3)"
proof -
  note tw = takeWhile_digits [OF assms(2,4)]
  have "\<not> (ip = [] \<or> 1 < length ip \<and> hd ip = 0x30)"
    using assms(1,3) by auto
  then show ?thesis
    unfolding parse_unsigned_def Let_def tw using assms(5,6) by simp
qed

lemma digits_val_zeros: "digits_val (replicate j 0x30) = 0"
proof (induction j)
  case 0
  show ?case by (simp add: digits_val_Nil)
next
  case (Suc j)
  have "replicate (Suc j) (0x30 :: code_unit) = replicate j 0x30 @ [0x30]"
    by (simp add: replicate_append_same)
  then show ?case
    using Suc by (simp only: digits_val_snoc) (simp add: digit_val_def)
qed

lemma digits_val_pad_right: "digits_val (ds @ replicate j 0x30) = digits_val ds * 10 ^ j"
  by (simp add: digits_val_append digits_val_zeros)

lemma digits_val_pad_left: "digits_val (replicate j 0x30 @ ds) = digits_val ds"
  by (simp add: digits_val_append digits_val_zeros)

lemma zeros_all_digits: "c \<in> set (replicate j (0x30 :: code_unit)) \<Longrightarrow> is_digit c"
  by (simp add: not_digit_chars)

lemma parse_format_digits:
  assumes s: "0 < s" and r: "number_ends r"
  shows "parse_unsigned neg (format_digits (dec_digits s) n @ r)
         = Some (decimal_to_double neg s (n - int (length (dec_digits s))), r)"
proof -
  let ?ds = "dec_digits s"
  let ?k = "int (length ?ds)"
  have ne: "?ds \<noteq> []" by (rule dec_digits_nonempty)
  have dg: "\<forall>c \<in> set ?ds. is_digit c"
    using s by (intro dec_digits_all_digits) simp
  have hd: "hd ?ds \<noteq> 0x30" using s by (rule hd_dec_digits)
  have v: "digits_val ?ds = s"
    using s by (intro digits_val_dec_digits) simp
  have rn: "r = [] \<or> \<not> is_digit (hd r)"
    using r by (rule number_ends_nondigit)
  have k1: "1 \<le> ?k"
    using ne by (cases ?ds) simp_all
  let ?cA = "?k \<le> n \<and> n \<le> 21" and ?cB = "0 < n \<and> n \<le> 21" and ?cC = "- 6 < n \<and> n \<le> 0"
  consider (A) "?cA = True"
    | (B) "?cA = False" "?cB = True"
    | (C) "?cA = False" "?cB = False" "?cC = True"
    | (D) "?cA = False" "?cB = False" "?cC = False" "(?k = 1) = True"
    | (E) "?cA = False" "?cB = False" "?cC = False" "(?k = 1) = False"
    by blast
  then show ?thesis
  proof cases
    case A
    let ?j = "nat (n - ?k)"
    let ?ip = "?ds @ replicate ?j 0x30"
    have f: "format_digits ?ds n = ?ip"
      unfolding format_digits_def Let_def by (simp only: A if_False if_True)
    have "parse_unsigned neg (?ip @ r)
        = Some (decimal_to_double neg (digits_val (?ip @ [])) (0 - int (length ([]::jsstring))), r)"
    proof (rule parse_unsigned_parts)
      show "?ip \<noteq> []" using ne by simp
      show "\<forall>c \<in> set ?ip. is_digit c" using dg by (auto simp: not_digit_chars)
      show "hd ?ip \<noteq> 0x30 \<or> length ?ip = 1" using hd ne by simp
      show "r = [] \<or> \<not> is_digit (hd r)" by (rule rn)
      show "parse_fraction r = Some ([], r)" using r by (rule parse_fraction_none)
      show "parse_exponent_part r = Some (0, r)" using r by (rule parse_exponent_part_none)
    qed
    moreover have "decimal_to_double neg (digits_val ?ip) 0 = decimal_to_double neg s (n - ?k)"
      using A by (simp add: digits_val_pad_right v decimal_to_double_shift)
    ultimately show ?thesis
      by (simp add: f)
  next
    case B
    then have nk: "n < ?k" and n0: "0 < n" by auto
    let ?ip = "take (nat n) ?ds"
    let ?fp = "drop (nat n) ?ds"
    have f: "format_digits ?ds n = ?ip @ 0x2E # ?fp"
      unfolding format_digits_def Let_def by (simp only: B if_False if_True)
    have fpne: "?fp \<noteq> []" using nk n0 by simp
    have "parse_unsigned neg (?ip @ (0x2E # ?fp @ r))
        = Some (decimal_to_double neg (digits_val (?ip @ ?fp)) (0 - int (length ?fp)), r)"
    proof (rule parse_unsigned_parts)
      show "?ip \<noteq> []" using ne n0 by simp
      show "\<forall>c \<in> set ?ip. is_digit c" using dg by (meson in_set_takeD)
      show "hd ?ip \<noteq> 0x30 \<or> length ?ip = 1" using hd n0 by (simp add: hd_take)
      show "0x2E # ?fp @ r = [] \<or> \<not> is_digit (hd (0x2E # ?fp @ r))"
        by (simp add: not_digit_chars)
      show "parse_fraction (0x2E # ?fp @ r) = Some (?fp, r)"
        using fpne rn dg by (intro parse_fraction_digits) (auto dest: in_set_dropD)
      show "parse_exponent_part r = Some (0, r)" using r by (rule parse_exponent_part_none)
    qed
    moreover have "0 - int (length ?fp) = n - ?k"
      using nk n0 by simp
    ultimately show ?thesis
      using n0 by (simp add: f v)
  next
    case C
    let ?z = "replicate (nat (- n)) (0x30 :: code_unit)"
    have "format_digits ?ds n = 0x30 # 0x2E # ?z @ ?ds"
      unfolding format_digits_def Let_def by (simp only: C if_False if_True)
    then have f: "format_digits ?ds n = [0x30] @ 0x2E # (?z @ ?ds)"
      by simp
    have "parse_unsigned neg ([0x30] @ (0x2E # (?z @ ?ds) @ r))
        = Some (decimal_to_double neg (digits_val ([0x30] @ (?z @ ?ds)))
                  (0 - int (length (?z @ ?ds))), r)"
    proof (rule parse_unsigned_parts)
      show "[0x30 :: code_unit] \<noteq> []" by simp
      show "\<forall>c \<in> set [0x30 :: code_unit]. is_digit c" by (simp add: not_digit_chars)
      show "hd [0x30 :: code_unit] \<noteq> 0x30 \<or> length [0x30 :: code_unit] = 1" by simp
      show "0x2E # (?z @ ?ds) @ r = [] \<or> \<not> is_digit (hd (0x2E # (?z @ ?ds) @ r))"
        by (simp add: not_digit_chars)
      show "parse_fraction (0x2E # (?z @ ?ds) @ r) = Some (?z @ ?ds, r)"
        using ne rn dg by (intro parse_fraction_digits) (auto simp: not_digit_chars)
      show "parse_exponent_part r = Some (0, r)" using r by (rule parse_exponent_part_none)
    qed
    moreover have "digits_val ([0x30] @ (?z @ ?ds)) = s"
      using digits_val_pad_left [of "Suc (nat (- n))" ?ds] by (simp add: v)
    moreover have "0 - int (length (?z @ ?ds)) = n - ?k"
      using C(3) by simp
    ultimately show ?thesis
      by (simp add: f)
  next
    case D
    let ?ex = "(if 0 < n - 1 then 0x2B else 0x2D) # dec_digits \<bar>n - 1\<bar>"
    have f: "format_digits ?ds n = ?ds @ 0x65 # ?ex"
      unfolding format_digits_def Let_def by (simp only: D if_False if_True)
    have "parse_unsigned neg (?ds @ (0x65 # ?ex @ r))
        = Some (decimal_to_double neg (digits_val (?ds @ [])) (n - 1 - int (length ([]::jsstring))), r)"
    proof (rule parse_unsigned_parts)
      show "?ds \<noteq> []" by (rule ne)
      show "\<forall>c \<in> set ?ds. is_digit c" by (rule dg)
      show "hd ?ds \<noteq> 0x30 \<or> length ?ds = 1" using hd by simp
      show "0x65 # ?ex @ r = [] \<or> \<not> is_digit (hd (0x65 # ?ex @ r))"
        by (simp add: not_digit_chars)
      show "parse_fraction (0x65 # ?ex @ r) = Some ([], 0x65 # ?ex @ r)"
        by (rule parse_fraction_e)
      show "parse_exponent_part (0x65 # ?ex @ r) = Some (n - 1, r)"
        using parse_exponent_signed [OF rn, of "n - 1"] by simp
    qed
    then show ?thesis
      using D(4) by (simp add: f v)
  next
    case E
    then have k2: "1 < ?k" using k1 by simp
    let ?ex = "(if 0 < n - 1 then 0x2B else 0x2D) # dec_digits \<bar>n - 1\<bar>"
    have "format_digits ?ds n = hd ?ds # 0x2E # tl ?ds @ 0x65 # ?ex"
      unfolding format_digits_def Let_def by (simp only: E if_False if_True)
    then have f: "format_digits ?ds n = [hd ?ds] @ 0x2E # tl ?ds @ 0x65 # ?ex"
      by simp
    have tlne: "tl ?ds \<noteq> []"
      using k2 by (cases ?ds) auto
    have "parse_unsigned neg ([hd ?ds] @ (0x2E # tl ?ds @ (0x65 # ?ex @ r)))
        = Some (decimal_to_double neg (digits_val ([hd ?ds] @ tl ?ds))
                  (n - 1 - int (length (tl ?ds))), r)"
    proof (rule parse_unsigned_parts)
      show "[hd ?ds] \<noteq> []" by simp
      show "\<forall>c \<in> set [hd ?ds]. is_digit c" using dg ne by simp
      show "hd [hd ?ds] \<noteq> 0x30 \<or> length [hd ?ds] = 1" by simp
      show "0x2E # tl ?ds @ 0x65 # ?ex @ r = []
          \<or> \<not> is_digit (hd (0x2E # tl ?ds @ 0x65 # ?ex @ r))"
        by (simp add: not_digit_chars)
      show "parse_fraction (0x2E # tl ?ds @ (0x65 # ?ex @ r)) = Some (tl ?ds, 0x65 # ?ex @ r)"
        using tlne dg by (intro parse_fraction_digits) (auto simp: not_digit_chars dest: list.set_sel(2) [OF ne])
      show "parse_exponent_part (0x65 # ?ex @ r) = Some (n - 1, r)"
        using parse_exponent_signed [OF rn, of "n - 1"] by simp
    qed
    moreover have "n - 1 - int (length (tl ?ds)) = n - ?k"
      using ne by (cases ?ds) simp_all
    ultimately show ?thesis
      by (simp add: f hd_Cons_tl [OF ne] v)
  qed
qed

lemma parse_unsigned_Some_digit:
  assumes "parse_unsigned neg s = Some x"
  shows "\<exists>c cs. s = c # cs \<and> is_digit c"
proof -
  have "takeWhile is_digit s \<noteq> []"
    using assms unfolding parse_unsigned_def Let_def by (auto split: if_splits)
  then show ?thesis
    by (cases s) (auto split: if_splits)
qed

lemma parse_number_unsigned:
  assumes "parse_unsigned False s = Some x"
  shows "parse_number s = Some x"
proof -
  obtain c cs where s: "s = c # cs" and c: "is_digit c"
    using parse_unsigned_Some_digit [OF assms] by blast
  have "c \<noteq> 0x2D"
    using c not_digit_chars(3) by auto
  then show ?thesis
    using assms by (simp add: parse_number_def s)
qed

lemma parse_number_minus: "parse_number (0x2D # s) = parse_unsigned True s"
  by (simp add: parse_number_def)

lemma parse_zero:
  assumes "number_ends r"
  shows "parse_number (js ''0'' @ r) = Some (Finite False 0 0, r)"
proof -
  have "parse_unsigned False ([0x30] @ r)
      = Some (decimal_to_double False (digits_val ([0x30] @ [])) (0 - int (length ([]::jsstring))), r)"
  proof (rule parse_unsigned_parts)
    show "[0x30 :: code_unit] \<noteq> []" by simp
    show "\<forall>c \<in> set [0x30 :: code_unit]. is_digit c" by (simp add: not_digit_chars)
    show "hd [0x30 :: code_unit] \<noteq> 0x30 \<or> length [0x30 :: code_unit] = 1" by simp
    show "r = [] \<or> \<not> is_digit (hd r)" using assms by (rule number_ends_nondigit)
    show "parse_fraction r = Some ([], r)" using assms by (rule parse_fraction_none)
    show "parse_exponent_part r = Some (0, r)" using assms by (rule parse_exponent_part_none)
  qed
  moreover have "digits_val [0x30] = 0"
    using digits_val_zeros [of 1] by simp
  ultimately have "parse_unsigned False (js ''0'' @ r) = Some (Finite False 0 0, r)"
    by (simp add: decimal_to_double_zero js_def)
  then show ?thesis
    by (rule parse_number_unsigned)
qed

lemma parse_Number_toString:
  assumes d: "is_double (Finite neg m e)" and r: "number_ends r"
  shows "parse_number (Number_toString (Finite neg m e) @ r) = Some (Finite (neg \<and> m \<noteq> 0) m e, r)"
proof (cases "m = 0")
  case True
  with d have "e = 0" by (simp add: is_double_def)
  with True show ?thesis
    using parse_zero [OF r] by (simp add: Number_toString_def)
next
  case False
  with d have m: "0 < m" "odd m" "m < 2 ^ 53" and e: "- 1074 \<le> e" and b: "bitlen m + e \<le> 1024"
    by (simp_all add: is_double_def)
  obtain N t where x: "exact_decimal m e = (N, t)"
    by (cases "exact_decimal m e")
  note N = exact_decimal_value [OF x m(1)]
  have ex: "decimal_to_double False N t = Finite False m e"
    using N m e b by (intro decimal_to_double_exact) simp_all
  obtain s n where sd: "shortest_digits m e N (int (length (dec_digits N))) t 1 = (s, n)"
    by (cases "shortest_digits m e N (int (length (dec_digits N))) t 1")
  from shortest_digits_sound [OF sd N(1) refl _ ex]
  have s: "0 < s"
    and v: "decimal_to_double False s (n - int (length (dec_digits s))) = Finite False m e"
    by simp_all
  let ?f = "format_digits (dec_digits s) n"
  have ts: "Number_toString (Finite neg m e) = (if neg then [0x2D] else []) @ ?f"
    using False x sd by (simp add: Number_toString_def)
  show ?thesis
  proof (cases neg)
    case True
    have "parse_unsigned True (?f @ r) = Some (Finite True m e, r)"
      using parse_format_digits [OF s r, of True n] decimal_to_double_sign [OF v, of True]
      by simp
    moreover have "Number_toString (Finite neg m e) @ r = 0x2D # (?f @ r)"
      using ts True by simp
    ultimately show ?thesis
      unfolding parse_number_minus using True False by (simp add: parse_number_minus)
  next
    case nn: False
    have "parse_unsigned False (?f @ r) = Some (Finite False m e, r)"
      using parse_format_digits [OF s r, of False n] v by simp
    then have "parse_number (?f @ r) = Some (Finite False m e, r)"
      by (rule parse_number_unsigned)
    moreover have "Number_toString (Finite neg m e) @ r = ?f @ r"
      using ts nn by simp
    ultimately show ?thesis
      using nn by simp
  qed
qed

subsection \<open>Unfolding the parser\<close>

lemma skip_ws_id: "\<not> is_ws c \<Longrightarrow> skip_ws (c # cs) = c # cs"
  by (simp add: skip_ws_def)

lemma skip_ws_Nil: "skip_ws [] = []"
  by (simp add: skip_ws_def)

lemma parse_value_null: "parse_value (Suc n) (js ''null'' @ r) = Some (JNull, r)"
  by (simp add: js_def skip_ws_def is_ws_def expect_literal_def)

lemma parse_value_true: "parse_value (Suc n) (js ''true'' @ r) = Some (JBool True, r)"
  by (simp add: js_def skip_ws_def is_ws_def expect_literal_def)

lemma parse_value_false: "parse_value (Suc n) (js ''false'' @ r) = Some (JBool False, r)"
  by (simp add: js_def skip_ws_def is_ws_def expect_literal_def)

lemma parse_value_string:
  "parse_value (Suc n) (0x22 # s) =
    (case parse_string_chars s of None \<Rightarrow> None | Some (str, r) \<Rightarrow> Some (JStr str, r))"
  by (simp add: skip_ws_def is_ws_def)

lemma digit_or_minus_facts:
  assumes "c = 0x2D \<or> is_digit c"
  shows "\<not> is_ws c" "c \<noteq> 0x7B" "c \<noteq> 0x5B" "c \<noteq> 0x22" "c \<noteq> 0x74" "c \<noteq> 0x66" "c \<noteq> 0x6E"
    "c \<noteq> 0x5D" "c \<noteq> 0x7D"
  using assms by (auto simp: is_digit_def is_ws_def)

lemma parse_value_number:
  assumes "c = 0x2D \<or> is_digit c"
  shows "parse_value (Suc n) (c # cs) =
    (case parse_number (c # cs) of None \<Rightarrow> None | Some (x, r) \<Rightarrow> Some (JNum x, r))"
  using digit_or_minus_facts [OF assms] assms by (simp add: skip_ws_id)

lemma parse_value_empty_array: "parse_value (Suc n) (0x5B # 0x5D # r) = Some (JArr [], r)"
  by (simp add: skip_ws_def is_ws_def)

lemma parse_value_empty_object: "parse_value (Suc n) (0x7B # 0x7D # r) = Some (JObj [], r)"
  by (simp add: skip_ws_def is_ws_def)

lemma parse_value_array:
  assumes "\<not> is_ws d" and "d \<noteq> 0x5D"
  shows "parse_value (Suc n) (0x5B # d # ds) =
    (case parse_elements n (d # ds) of None \<Rightarrow> None | Some (vs, r) \<Rightarrow> Some (JArr vs, r))"
proof -
  have "skip_ws (0x5B # d # ds) = 0x5B # d # ds"
    by (simp add: skip_ws_def is_ws_def)
  then show ?thesis
    using assms by (simp add: skip_ws_id)
qed

lemma parse_value_object:
  assumes "\<not> is_ws d" and "d \<noteq> 0x7D"
  shows "parse_value (Suc n) (0x7B # d # ds) =
    (case parse_members n (d # ds) of None \<Rightarrow> None | Some (ms, r) \<Rightarrow> Some (build_object ms, r))"
proof -
  have "skip_ws (0x7B # d # ds) = 0x7B # d # ds"
    by (simp add: skip_ws_def is_ws_def)
  then show ?thesis
    using assms by (simp add: skip_ws_id)
qed

lemma parse_elements_last:
  assumes "parse_value n s = Some (v, 0x5D # r)"
  shows "parse_elements (Suc n) s = Some ([v], r)"
  using assms by (simp add: skip_ws_def is_ws_def)

lemma parse_elements_more:
  assumes "parse_value n s = Some (v, 0x2C # r)" and "parse_elements n r = Some (vs, r')"
  shows "parse_elements (Suc n) s = Some (v # vs, r')"
  using assms by (simp add: skip_ws_def is_ws_def)

lemma parse_members_last:
  assumes "parse_string_chars s = Some (k, 0x3A # t)" and "parse_value n t = Some (v, 0x7D # r)"
  shows "parse_members (Suc n) (0x22 # s) = Some ([(k, v)], r)"
  using assms by (simp add: skip_ws_def is_ws_def)

lemma parse_members_more:
  assumes "parse_string_chars s = Some (k, 0x3A # t)" and "parse_value n t = Some (v, 0x2C # r)"
    and "parse_members n r = Some (ms, r')"
  shows "parse_members (Suc n) (0x22 # s) = Some ((k, v) # ms, r')"
  using assms by (simp add: skip_ws_def is_ws_def)

declare parse_value.simps(2) [simp del] parse_elements.simps(2) [simp del]
  parse_members.simps(2) [simp del]

subsection \<open>Objects and the order of their keys\<close>

lemma key_before_later:
  assumes "key_before k k'" and "\<not> key_before k'' k'"
  shows "\<not> key_before k'' k" and "k'' \<noteq> k"
  using assms by (auto simp: key_before_def split: option.splits)

lemma key_before_irrefl: "\<not> key_before k k"
  by (simp add: key_before_def split: option.splits)

lemma key_ordered_append:
  "key_ordered (xs @ ys) \<longleftrightarrow>
     key_ordered xs \<and> key_ordered ys \<and> (\<forall>x \<in> set xs. \<forall>y \<in> set ys. y \<noteq> x \<and> \<not> key_before y x)"
  by (induction xs) auto

lemma CreateDataProperty_keys:
  "set (map fst (CreateDataProperty ps k v)) = insert k (set (map fst ps))"
  by (induction ps k v rule: CreateDataProperty.induct) auto

lemma CreateDataProperty_ordered:
  "key_ordered (map fst ps) \<Longrightarrow> key_ordered (map fst (CreateDataProperty ps k v))"
proof (induction ps k v rule: CreateDataProperty.induct)
  case (1 k v)
  show ?case by simp
next
  case (2 k' v' ps k v)
  from "2.prems" have hd: "\<forall>x \<in> set (map fst ps). x \<noteq> k' \<and> \<not> key_before x k'"
    and tl: "key_ordered (map fst ps)"
    by simp_all
  show ?case
  proof (cases "k' = k")
    case True
    with "2.prems" show ?thesis by simp
  next
    case ne: False
    show ?thesis
    proof (cases "key_before k k'")
      case True
      have "\<forall>x \<in> set (map fst ps). x \<noteq> k \<and> \<not> key_before x k"
        using hd key_before_later [OF True] by blast
      moreover have "\<not> key_before k' k"
        using key_before_later(1) [OF True key_before_irrefl] .
      ultimately show ?thesis
        using ne True "2.prems" by simp
    next
      case False
      have "key_ordered (map fst (CreateDataProperty ps k v))"
        using "2.IH" [OF ne False tl] .
      moreover have "\<forall>x \<in> set (map fst (CreateDataProperty ps k v)). x \<noteq> k' \<and> \<not> key_before x k'"
        unfolding CreateDataProperty_keys using hd ne False by auto
      ultimately show ?thesis
        using ne False by simp
    qed
  qed
qed

lemma CreateDataProperty_wf:
  "wf_props ps \<Longrightarrow> wf_value v \<Longrightarrow> wf_props (CreateDataProperty ps k v)"
  by (induction ps k v rule: CreateDataProperty.induct) auto

lemma CreateDataProperty_append:
  assumes "\<forall>x \<in> set (map fst ps). x \<noteq> k \<and> \<not> key_before k x"
  shows "CreateDataProperty ps k v = ps @ [(k, v)]"
  using assms by (induction ps k v rule: CreateDataProperty.induct) auto

lemma wf_props_append: "wf_props (xs @ ys) \<longleftrightarrow> wf_props xs \<and> wf_props ys"
  by (induction xs) auto

lemma foldl_define_ordered:
  "key_ordered (map fst (qs @ ps)) \<Longrightarrow>
   foldl (\<lambda>ps (k, v). CreateDataProperty ps k v) qs ps = qs @ ps"
proof (induction ps arbitrary: qs)
  case Nil
  show ?case by simp
next
  case (Cons p ps)
  obtain k v where p: "p = (k, v)" by (cases p)
  have o: "key_ordered (map fst qs @ k # map fst ps)"
    using Cons.prems by (simp add: p)
  then have "\<forall>x \<in> set (map fst qs). k \<noteq> x \<and> \<not> key_before k x"
    unfolding key_ordered_append by simp
  then have "CreateDataProperty qs k v = qs @ [(k, v)]"
    by (intro CreateDataProperty_append) auto
  moreover have "key_ordered (map fst ((qs @ [(k, v)]) @ ps))"
    using o by simp
  ultimately show ?case
    using Cons.IH [of "qs @ [(k, v)]"] by (simp add: p)
qed

lemma build_object_ordered: "key_ordered (map fst ps) \<Longrightarrow> build_object ps = JObj ps"
  using foldl_define_ordered [of "[]" ps] by (simp add: build_object_def)

lemma foldl_define_wf:
  "wf_props qs \<Longrightarrow> key_ordered (map fst qs) \<Longrightarrow> wf_props ms \<Longrightarrow>
   wf_props (foldl (\<lambda>ps (k, v). CreateDataProperty ps k v) qs ms)
   \<and> key_ordered (map fst (foldl (\<lambda>ps (k, v). CreateDataProperty ps k v) qs ms))"
proof (induction ms arbitrary: qs)
  case Nil
  then show ?case by simp
next
  case (Cons p ms)
  obtain k v where p: "p = (k, v)" by (cases p)
  from Cons.prems(3) have v: "wf_value v" and ms: "wf_props ms"
    by (simp_all add: p)
  have "wf_props (CreateDataProperty qs k v)"
    using Cons.prems(1) v by (rule CreateDataProperty_wf)
  moreover have "key_ordered (map fst (CreateDataProperty qs k v))"
    using Cons.prems(2) by (rule CreateDataProperty_ordered)
  ultimately show ?case
    using Cons.IH [of "CreateDataProperty qs k v"] ms by (simp add: p)
qed

lemma build_object_wf: "wf_props ms \<Longrightarrow> wf_value (build_object ms)"
  using foldl_define_wf [of "[]" ms] by (simp add: build_object_def)

subsection \<open>Serialised values\<close>

lemma number_ends_structural:
  "number_ends []" "number_ends (0x2C # r)" "number_ends (0x5D # r)" "number_ends (0x7D # r)"
  by (simp_all add: number_ends_def is_digit_def)

lemma parse_number_Some_first:
  assumes "parse_number s = Some x"
  shows "\<exists>c cs. s = c # cs \<and> (c = 0x2D \<or> is_digit c)"
proof (cases s)
  case Nil
  with assms show ?thesis by (simp add: parse_number_def)
next
  case (Cons c cs)
  show ?thesis
  proof (cases "c = 0x2D")
    case True
    with Cons show ?thesis by simp
  next
    case False
    with assms Cons have "parse_unsigned False s = Some x"
      by (simp add: parse_number_def)
    from parse_unsigned_Some_digit [OF this] show ?thesis by blast
  qed
qed

lemma Number_toString_first:
  assumes "is_double (Finite neg m e)"
  shows "\<exists>c cs. Number_toString (Finite neg m e) = c # cs \<and> (c = 0x2D \<or> is_digit c)"
proof -
  have "parse_number (Number_toString (Finite neg m e) @ []) = Some (Finite (neg \<and> m \<noteq> 0) m e, [])"
    using assms number_ends_structural(1) by (rule parse_Number_toString)
  from parse_number_Some_first [OF this] show ?thesis by simp
qed

lemma value_start_chars:
  "value_start 0x6E" "value_start 0x74" "value_start 0x66" "value_start 0x22"
  "value_start 0x5B" "value_start 0x7B"
  by (simp_all add: value_start_def is_ws_def)

lemma value_start_number: "c = 0x2D \<or> is_digit c \<Longrightarrow> value_start c"
  using digit_or_minus_facts [of c] by (simp add: value_start_def)

lemma serialize_first:
  assumes "wf_value v"
  shows "\<exists>c cs. SerializeJSONProperty [] ind v = c # cs \<and> value_start c"
proof (cases v)
  case JNull
  then show ?thesis by (simp add: js_def value_start_chars)
next
  case (JBool b)
  then show ?thesis by (simp add: js_def value_start_chars)
next
  case (JNum x)
  show ?thesis
  proof (cases x)
    case (Finite neg m e)
    with assms JNum have "is_double (Finite neg m e)" by simp
    from Number_toString_first [OF this] show ?thesis
      using JNum Finite value_start_number by auto
  qed (simp_all add: JNum js_def value_start_chars)
next
  case (JStr s)
  then show ?thesis by (simp add: QuoteJSONString_def value_start_chars)
next
  case (JArr vs)
  then show ?thesis by (simp add: js_def value_start_chars)
next
  case (JObj ps)
  then show ?thesis by (simp add: js_def value_start_chars)
qed

lemma join_Cons: "join sep (x # xs) = (if xs = [] then x else x @ sep @ join sep xs)"
  by (cases xs) simp_all

lemma map_fst_json_norm_props: "map fst (json_norm_props ps) = map fst ps"
  by (induction ps) auto

subsection \<open>Parsing a serialised value\<close>

lemma roundtrip_scalar_null:
  assumes "length (js ''null'') < n"
  shows "parse_value n (js ''null'' @ r) = Some (JNull, r)"
proof -
  obtain n' where "n = Suc n'" using assms by (cases n) simp_all
  then show ?thesis by (simp add: parse_value_null)
qed

lemma roundtrip_number:
  assumes d: "is_double (Finite neg m e)" and r: "number_ends r" and n: "0 < n"
  shows "parse_value n (Number_toString (Finite neg m e) @ r)
         = Some (JNum (Finite (neg \<and> m \<noteq> 0) m e), r)"
proof -
  obtain n' where n': "n = Suc n'" using n by (cases n) simp_all
  have p: "parse_number (Number_toString (Finite neg m e) @ r) = Some (Finite (neg \<and> m \<noteq> 0) m e, r)"
    using d r by (rule parse_Number_toString)
  obtain c cs where c: "Number_toString (Finite neg m e) @ r = c # cs" "c = 0x2D \<or> is_digit c"
    using parse_number_Some_first [OF p] by blast
  show ?thesis
    unfolding n' c(1) parse_value_number [OF c(2)] using p c(1) by simp
qed

lemma roundtrip_string:
  assumes "0 < n"
  shows "parse_value n (QuoteJSONString s @ r) = Some (JStr s, r)"
proof -
  obtain n' where n': "n = Suc n'" using assms by (cases n) simp_all
  show ?thesis
    by (simp add: n' QuoteJSONString_def parse_value_string parse_quote_units)
qed

lemma SerializeJSONArray_Nil [simp]: "SerializeJSONArray g i vs = [] \<longleftrightarrow> vs = []"
  by (cases vs) simp_all

lemma SerializeJSONObject_Nil [simp]: "SerializeJSONObject g i ps = [] \<longleftrightarrow> ps = []"
  by (cases ps) auto

lemma roundtrip:
  fixes ind :: jsstring
  shows "wf_value v \<Longrightarrow> length (SerializeJSONProperty [] ind v) < n \<Longrightarrow> number_ends r \<Longrightarrow>
      parse_value n (SerializeJSONProperty [] ind v @ r) = Some (json_norm v, r)"
    and "vs \<noteq> [] \<Longrightarrow> wf_values vs \<Longrightarrow>
      length (join [0x2C] (SerializeJSONArray [] ind vs)) + 1 < n \<Longrightarrow>
      parse_elements n (join [0x2C] (SerializeJSONArray [] ind vs) @ 0x5D # r)
        = Some (json_norm_list vs, r)"
    and "ps \<noteq> [] \<Longrightarrow> wf_props ps \<Longrightarrow>
      length (join [0x2C] (SerializeJSONObject [] ind ps)) + 1 < n \<Longrightarrow>
      parse_members n (join [0x2C] (SerializeJSONObject [] ind ps) @ 0x7D # r)
        = Some (json_norm_props ps, r)"
proof (induction v and vs and ps arbitrary: n r and n r and n r
    rule: json_norm_json_norm_list_json_norm_props.induct)
  case 1
  then show ?case by (simp add: roundtrip_scalar_null)
next
  case (2 b)
  obtain n' where n': "n = Suc n'" using 2 by (cases n) simp_all
  show ?case by (simp add: n' parse_value_true parse_value_false)
next
  case (3 x)
  have n: "0 < n" using 3 by (cases n) simp_all
  show ?case
  proof (cases x)
    case (Finite neg m e)
    with 3 have "is_double (Finite neg m e)" by simp
    from roundtrip_number [OF this "3.prems"(3) n] show ?thesis
      by (simp add: Finite)
  next
    case NaN
    obtain n' where n': "n = Suc n'" using n by (cases n) simp_all
    show ?thesis by (simp add: NaN n' parse_value_null)
  next
    case (Infinity s)
    obtain n' where n': "n = Suc n'" using n by (cases n) simp_all
    show ?thesis by (simp add: Infinity n' parse_value_null)
  qed
next
  case (4 s)
  have n: "0 < n" using 4 by (cases n) simp_all
  then show ?case by (simp add: roundtrip_string)
next
  case (5 vs)
  obtain n' where n': "n = Suc n'" using 5 by (cases n) simp_all
  show ?case
  proof (cases "vs = []")
    case True
    then show ?thesis by (simp add: n' js_def parse_value_empty_array)
  next
    case False
    then obtain v ws where vs: "vs = v # ws" by (cases vs) auto
    let ?t = "join [0x2C] (SerializeJSONArray [] ind vs)"
    have wv: "wf_value v" using "5.prems"(1) vs by simp
    obtain c cs where c: "SerializeJSONProperty [] ind v = c # cs" "value_start c"
      using serialize_first [OF wv] by blast
    have "\<exists>ds. ?t = c # ds"
      using c(1) by (simp add: vs join_Cons)
    then obtain ds where ds: "?t = c # ds" by blast
    have len: "length ?t + 1 < n'"
      using "5.prems"(2) False by (simp add: n')
    have "parse_elements n' (?t @ 0x5D # r) = Some (json_norm_list vs, r)"
      using "5.IH" [OF False _ len] "5.prems"(1) by simp
    then have "parse_elements n' (c # ds @ 0x5D # r) = Some (json_norm_list vs, r)"
      by (simp add: ds)
    moreover have "parse_value (Suc n') (0x5B # c # (ds @ 0x5D # r))
        = (case parse_elements n' (c # (ds @ 0x5D # r)) of None \<Rightarrow> None
           | Some (vs, r) \<Rightarrow> Some (JArr vs, r))"
      using c(2) by (intro parse_value_array) (simp_all add: value_start_def)
    moreover have "SerializeJSONProperty [] ind (JArr vs) @ r = 0x5B # c # (ds @ 0x5D # r)"
      using False ds by simp
    ultimately show ?thesis
      by (simp add: n')
  qed
next
  case (6 ps)
  obtain n' where n': "n = Suc n'" using 6 by (cases n) simp_all
  show ?case
  proof (cases "ps = []")
    case True
    then show ?thesis by (simp add: n' js_def parse_value_empty_object)
  next
    case False
    then obtain k v qs where ps: "ps = (k, v) # qs" by (cases ps) auto
    let ?t = "join [0x2C] (SerializeJSONObject [] ind ps)"
    have "\<exists>ds. ?t = 0x22 # ds"
      by (simp add: ps join_Cons QuoteJSONString_def)
    then obtain ds where ds: "?t = 0x22 # ds" by blast
    have len: "length ?t + 1 < n'"
      using "6.prems"(2) False by (simp add: n')
    have "parse_members n' (?t @ 0x7D # r) = Some (json_norm_props ps, r)"
      using "6.IH" [OF False _ len] "6.prems"(1) by simp
    then have "parse_members n' (0x22 # ds @ 0x7D # r) = Some (json_norm_props ps, r)"
      by (simp add: ds)
    moreover have "parse_value (Suc n') (0x7B # 0x22 # (ds @ 0x7D # r))
        = (case parse_members n' (0x22 # (ds @ 0x7D # r)) of None \<Rightarrow> None
           | Some (ms, r) \<Rightarrow> Some (build_object ms, r))"
      by (intro parse_value_object) (simp_all add: is_ws_def)
    moreover have "SerializeJSONProperty [] ind (JObj ps) @ r = 0x7B # 0x22 # (ds @ 0x7D # r)"
      using False ds by simp
    moreover have "build_object (json_norm_props ps) = JObj (json_norm_props ps)"
      using "6.prems"(1) by (intro build_object_ordered) (simp add: map_fst_json_norm_props)
    ultimately show ?thesis
      by (simp add: n')
  qed
next
  case 7
  then show ?case by simp
next
  case (8 v vs)
  obtain n' where n': "n = Suc n'" using 8 by (cases n) simp_all
  have wv: "wf_value v" and wvs: "wf_values vs" using "8.prems"(2) by simp_all
  let ?s = "SerializeJSONProperty [] ind v"
  show ?case
  proof (cases "vs = []")
    case True
    have "length ?s < n'" using "8.prems"(3) True by (simp add: n')
    from "8.IH"(1) [OF wv this number_ends_structural(3)]
    have "parse_value n' (?s @ 0x5D # r) = Some (json_norm v, 0x5D # r)" .
    then have "parse_elements (Suc n') (?s @ 0x5D # r) = Some ([json_norm v], r)"
      by (rule parse_elements_last)
    then show ?thesis by (simp add: True n')
  next
    case False
    let ?t = "join [0x2C] (SerializeJSONArray [] ind vs)"
    have j: "join [0x2C] (SerializeJSONArray [] ind (v # vs)) = ?s @ 0x2C # ?t"
      using False by (simp add: join_Cons)
    have "length (join [0x2C] (SerializeJSONArray [] ind (v # vs))) = length ?s + 1 + length ?t"
      by (simp only: j) simp
    then have l1: "length ?s < n'" and l2: "length ?t + 1 < n'"
      using "8.prems"(3) unfolding n' by linarith+
    from "8.IH"(1) [OF wv l1 number_ends_structural(2)]
    have "parse_value n' (?s @ 0x2C # (?t @ 0x5D # r)) = Some (json_norm v, 0x2C # (?t @ 0x5D # r))" .
    moreover from "8.IH"(2) [OF False wvs l2]
    have "parse_elements n' (?t @ 0x5D # r) = Some (json_norm_list vs, r)" .
    ultimately have "parse_elements (Suc n') (?s @ 0x2C # (?t @ 0x5D # r))
        = Some (json_norm v # json_norm_list vs, r)"
      by (rule parse_elements_more)
    then show ?thesis unfolding j n' by simp
  qed
next
  case 9
  then show ?case by simp
next
  case (10 k v ps)
  obtain n' where n': "n = Suc n'" using 10 by (cases n) simp_all
  have wv: "wf_value v" and wps: "wf_props ps" using "10.prems"(2) by simp_all
  let ?s = "SerializeJSONProperty [] ind v"
  let ?m = "QuoteJSONString k @ 0x3A # ?s"
  have m: "?m @ x = 0x22 # (quote_units k @ 0x22 # (0x3A # (?s @ x)))" for x
    by (simp add: QuoteJSONString_def)
  have key: "parse_string_chars (quote_units k @ 0x22 # (0x3A # (?s @ x))) = Some (k, 0x3A # (?s @ x))" for x
    by (rule parse_quote_units)
  show ?case
  proof (cases "ps = []")
    case True
    have "length ?s < n'" using "10.prems"(3) True by (simp add: n')
    from "10.IH"(1) [OF wv this number_ends_structural(4)]
    have "parse_value n' (?s @ 0x7D # r) = Some (json_norm v, 0x7D # r)" .
    with key have "parse_members (Suc n') (0x22 # (quote_units k @ 0x22 # (0x3A # (?s @ 0x7D # r))))
        = Some ([(k, json_norm v)], r)"
      by (rule parse_members_last)
    then show ?thesis using m [of "0x7D # r"] by (simp add: True n')
  next
    case False
    let ?t = "join [0x2C] (SerializeJSONObject [] ind ps)"
    have j: "join [0x2C] (SerializeJSONObject [] ind ((k, v) # ps)) = ?m @ 0x2C # ?t"
      using False by (simp add: join_Cons)
    have "length (join [0x2C] (SerializeJSONObject [] ind ((k, v) # ps)))
        = length (QuoteJSONString k) + 1 + length ?s + 1 + length ?t"
      by (simp only: j) simp
    then have l1: "length ?s < n'" and l2: "length ?t + 1 < n'"
      using "10.prems"(3) unfolding n' by linarith+
    from "10.IH"(1) [OF wv l1 number_ends_structural(2)]
    have "parse_value n' (?s @ 0x2C # (?t @ 0x7D # r)) = Some (json_norm v, 0x2C # (?t @ 0x7D # r))" .
    moreover from "10.IH"(2) [OF False wps l2]
    have "parse_members n' (?t @ 0x7D # r) = Some (json_norm_props ps, r)" .
    ultimately have "parse_members (Suc n') (0x22 # (quote_units k @ 0x22 # (0x3A # (?s @ 0x2C # (?t @ 0x7D # r)))))
        = Some ((k, json_norm v) # json_norm_props ps, r)"
      using key by (intro parse_members_more)
    then show ?thesis unfolding j n' using m [of "0x2C # (?t @ 0x7D # r)"] by simp
  qed
qed

subsection \<open>JSON.parse after JSON.stringify\<close>

lemma JSON_parse_json_text:
  assumes "wf_value v"
  shows "JSON_parse (json_text v) = Inr (json_norm v)"
proof -
  let ?t = "SerializeJSONProperty [] [] v"
  have "parse_value (Suc (length ?t)) (?t @ []) = Some (json_norm v, [])"
    using assms by (intro roundtrip(1)) (simp_all add: number_ends_structural)
  then show ?thesis
    by (simp add: JSON_parse_def json_text_def skip_ws_Nil)
qed

lemma parse_unsigned_is_double: "parse_unsigned neg s = Some (x, r) \<Longrightarrow> is_double x"
  unfolding parse_unsigned_def Let_def
  by (auto simp: decimal_to_double_is_double split: if_splits option.splits)

lemma parse_number_is_double: "parse_number s = Some (x, r) \<Longrightarrow> is_double x"
  unfolding parse_number_def
  by (auto dest: parse_unsigned_is_double split: list.splits if_splits)

lemma parse_value_cases:
  assumes "parse_value (Suc n) s = Some (v, r)"
  shows "v = JObj [] \<or> (\<exists>ms. parse_members n (skip_ws (tl (skip_ws s))) = Some (ms, r) \<and> v = build_object ms)
       \<or> v = JArr [] \<or> (\<exists>vs. parse_elements n (skip_ws (tl (skip_ws s))) = Some (vs, r) \<and> v = JArr vs)
       \<or> (\<exists>str. v = JStr str) \<or> (\<exists>b. v = JBool b) \<or> v = JNull
       \<or> (\<exists>x. parse_number (skip_ws s) = Some (x, r) \<and> v = JNum x)"
  using assms
  by (auto simp: parse_value.simps(2) expect_literal_def
      split: list.splits if_splits option.splits prod.splits)

lemma parse_elements_cases:
  assumes "parse_elements (Suc n) s = Some (vs, r)"
  shows "\<exists>v r'. parse_value n s = Some (v, r')
      \<and> (vs = [v] \<or> (\<exists>ws r''. parse_elements n r'' = Some (ws, r) \<and> vs = v # ws))"
  using assms
  by (auto simp: parse_elements.simps(2)
      split: list.splits if_splits option.splits prod.splits)

lemma parse_members_cases:
  assumes "parse_members (Suc n) s = Some (ms, r)"
  shows "\<exists>k v t r'. parse_value n t = Some (v, r')
      \<and> (ms = [(k, v)] \<or> (\<exists>ns r''. parse_members n r'' = Some (ns, r) \<and> ms = (k, v) # ns))"
  using assms
  by (auto simp: parse_members.simps(2)
      split: list.splits if_splits option.splits prod.splits)

lemma parse_wf:
  "(\<forall>s v r. parse_value n s = Some (v, r) \<longrightarrow> wf_value v)
   \<and> (\<forall>s vs r. parse_elements n s = Some (vs, r) \<longrightarrow> wf_values vs)
   \<and> (\<forall>s ms r. parse_members n s = Some (ms, r) \<longrightarrow> wf_props ms)"
proof (induction n)
  case 0
  show ?case by simp
next
  case (Suc n)
  then have V: "\<And>s v r. parse_value n s = Some (v, r) \<Longrightarrow> wf_value v"
    and E: "\<And>s vs r. parse_elements n s = Some (vs, r) \<Longrightarrow> wf_values vs"
    and M: "\<And>s ms r. parse_members n s = Some (ms, r) \<Longrightarrow> wf_props ms"
    by blast+
  have "wf_value v" if "parse_value (Suc n) s = Some (v, r)" for s v r
    using parse_value_cases [OF that]
    by (auto dest: E M parse_number_is_double intro: build_object_wf)
  moreover have "wf_values vs" if "parse_elements (Suc n) s = Some (vs, r)" for s vs r
    using parse_elements_cases [OF that] by (auto dest: V E)
  moreover have "wf_props ms" if "parse_members (Suc n) s = Some (ms, r)" for s ms r
    using parse_members_cases [OF that] by (auto dest: V M)
  ultimately show ?case by blast
qed

lemma JSON_parse_wf:
  assumes "JSON_parse s = Inr v"
  shows "wf_value v"
proof -
  obtain r where "parse_value (Suc (length s)) s = Some (v, r)"
    using assms by (auto simp: JSON_parse_def split: option.splits if_splits)
  with parse_wf [of "Suc (length s)"] show ?thesis
    by blast
qed


subsection \<open>Every token consumes input\<close>

lemma length_skip_ws: "length (skip_ws s) \<le> length s"
  by (simp add: skip_ws_def length_dropWhile_le)

lemma cons_result_length:
  assumes "cons_result c x = Some (str, r)"
  obtains str' where "x = Some (str', r)"
  using assms by (auto simp: cons_result_def split: option.splits)

lemma parse_string_chars_length:
  "parse_string_chars s = Some (str, r) \<Longrightarrow> length r < length s"
proof (induction "length s" arbitrary: s str r rule: less_induct)
  case less
  have key: "length r < length s"
    if "parse_string_chars t = Some (str', r)" "length t < length s" for t str'
    using less.hyps [OF that(2) that(1)] that(2) by simp
  show ?case
  proof (cases s)
    case Nil
    with less.prems show ?thesis by (simp add: parse_string_chars.simps)
  next
    case (Cons c cs)
    show ?thesis
    proof (cases "c = 0x22")
      case True
      with less.prems Cons show ?thesis by (simp add: parse_string_chars.simps(2))
    next
      case nq: False
      show ?thesis
      proof (cases "c = 0x5C")
        case False
        with nq less.prems Cons obtain str' where "parse_string_chars cs = Some (str', r)"
          by (auto simp: parse_string_chars.simps(2) split: if_splits elim: cons_result_length)
        then show ?thesis by (rule key) (simp add: Cons)
      next
        case bs: True
        show ?thesis
        proof (cases cs)
          case Nil
          with bs less.prems Cons show ?thesis by (simp add: parse_string_chars.simps(2))
        next
          case (Cons e es)
          show ?thesis
          proof (cases "e = 0x75")
            case False
            with bs less.prems \<open>s = c # cs\<close> Cons
            obtain str' where "parse_string_chars es = Some (str', r)"
              by (auto simp: parse_string_chars.simps(2) split: option.splits
                  elim: cons_result_length)
            then show ?thesis by (rule key) (simp add: Cons \<open>s = c # cs\<close>)
          next
            case True
            with bs less.prems \<open>s = c # cs\<close> Cons
            obtain h1 h2 h3 h4 t str' where "es = h1 # h2 # h3 # h4 # t"
              "parse_string_chars t = Some (str', r)"
              by (auto simp: parse_string_chars.simps(2) split: option.splits list.splits
                  elim: cons_result_length)
            then show ?thesis by (intro key [of t str']) (simp_all add: Cons \<open>s = c # cs\<close>)
          qed
        qed
      qed
    qed
  qed
qed

lemma parse_exponent_length: "parse_exponent s = Some (x, r) \<Longrightarrow> length r \<le> length s"
  unfolding parse_exponent_def Let_def
  by (auto simp: length_dropWhile_le le_SucI split: list.splits if_splits)

lemma parse_exponent_part_length:
  "parse_exponent_part s = Some (x, r) \<Longrightarrow> length r \<le> length s"
  unfolding parse_exponent_part_def
  by (auto simp: le_SucI dest: parse_exponent_length split: list.splits if_splits)

lemma parse_fraction_length: "parse_fraction s = Some (fp, r) \<Longrightarrow> length r \<le> length s"
  unfolding parse_fraction_def
  by (auto simp: length_dropWhile_le le_SucI split: list.splits if_splits)

lemma dropWhile_shorter: "takeWhile P s \<noteq> [] \<Longrightarrow> length (dropWhile P s) < length s"
  by (cases s) (auto simp: length_dropWhile_le less_Suc_eq_le split: if_splits)

lemma parse_unsigned_length:
  assumes "parse_unsigned neg s = Some (x, r)"
  shows "length r < length s"
proof -
  obtain fp s3 ex where t: "takeWhile is_digit s \<noteq> []"
    and f: "parse_fraction (dropWhile is_digit s) = Some (fp, s3)"
    and e: "parse_exponent_part s3 = Some (ex, r)"
    using assms unfolding parse_unsigned_def Let_def
    by (auto split: if_splits option.splits)
  have "length r \<le> length s3" using e by (rule parse_exponent_part_length)
  also have "\<dots> \<le> length (dropWhile is_digit s)" using f by (rule parse_fraction_length)
  also have "\<dots> < length s" using t by (rule dropWhile_shorter)
  finally show ?thesis .
qed

lemma parse_number_length: "parse_number s = Some (x, r) \<Longrightarrow> length r < length s"
  unfolding parse_number_def
  by (auto dest: parse_unsigned_length split: list.splits if_splits)

lemma expect_literal_length:
  "expect_literal l v s = Some (w, r) \<Longrightarrow> l \<noteq> [] \<Longrightarrow> length r < length s"
  unfolding expect_literal_def
  by (cases s) (auto split: if_splits)

subsection \<open>The bound on nested calls is never the cause of a failure\<close>

lemma parse_value_fuel_cases:
  assumes "parse_value (Suc n) s = Some (v, r)"
  obtains (members) t where "length t < length s" "\<And>m. parse_value (Suc m) s =
        (case parse_members m t of None \<Rightarrow> None | Some (ms, r) \<Rightarrow> Some (build_object ms, r))"
    | (elements) t where "length t < length s" "\<And>m. parse_value (Suc m) s =
        (case parse_elements m t of None \<Rightarrow> None | Some (vs, r) \<Rightarrow> Some (JArr vs, r))"
    | (token) "length r < length s" "\<And>m. parse_value (Suc m) s = Some (v, r)"
proof (cases "skip_ws s")
  case Nil
  with assms show ?thesis by (simp add: parse_value.simps(2))
next
  case (Cons c cs)
  have lc: "length cs < length s"
    using length_skip_ws [of s] Cons by simp
  consider (obj) "c = 0x7B" | (arr) "c \<noteq> 0x7B" "c = 0x5B" | (tok) "c \<noteq> 0x7B" "c \<noteq> 0x5B"
    by blast
  then show ?thesis
  proof cases
    case obj
    show ?thesis
    proof (cases "skip_ws cs")
      case Nil
      with assms Cons obj show ?thesis by (simp add: parse_value.simps(2))
    next
      case (Cons d ds)
      have ld: "length (d # ds) < length s"
        using length_skip_ws [of cs] Cons lc by simp
      show ?thesis
      proof (cases "d = 0x7D")
        case True
        have "parse_value (Suc m) s = Some (JObj [], ds)" for m
          using \<open>skip_ws s = c # cs\<close> obj Cons True by (simp add: parse_value.simps(2))
        moreover from this [of n] assms have "v = JObj []" "r = ds" by simp_all
        ultimately show ?thesis
          using ld by (intro token) simp_all
      next
        case False
        have "parse_value (Suc m) s =
            (case parse_members m (d # ds) of None \<Rightarrow> None
             | Some (ms, r) \<Rightarrow> Some (build_object ms, r))" for m
          using \<open>skip_ws s = c # cs\<close> obj Cons False by (simp add: parse_value.simps(2))
        with ld show ?thesis by (rule members)
      qed
    qed
  next
    case arr
    show ?thesis
    proof (cases "skip_ws cs")
      case Nil
      with assms Cons arr show ?thesis by (simp add: parse_value.simps(2))
    next
      case (Cons d ds)
      have ld: "length (d # ds) < length s"
        using length_skip_ws [of cs] Cons lc by simp
      show ?thesis
      proof (cases "d = 0x5D")
        case True
        have "parse_value (Suc m) s = Some (JArr [], ds)" for m
          using \<open>skip_ws s = c # cs\<close> arr Cons True by (simp add: parse_value.simps(2))
        moreover from this [of n] assms have "v = JArr []" "r = ds" by simp_all
        ultimately show ?thesis
          using ld by (intro token) simp_all
      next
        case False
        have "parse_value (Suc m) s =
            (case parse_elements m (d # ds) of None \<Rightarrow> None
             | Some (vs, r) \<Rightarrow> Some (JArr vs, r))" for m
          using \<open>skip_ws s = c # cs\<close> arr Cons False by (simp add: parse_value.simps(2))
        with ld show ?thesis by (rule elements)
      qed
    qed
  next
    case tok
    have same: "parse_value (Suc m) s = parse_value (Suc n) s" for m
      using Cons tok by (simp add: parse_value.simps(2))
    have ls: "length (c # cs) \<le> length s"
      using length_skip_ws [of s] Cons by simp
    have "length r < length (c # cs)"
      using assms Cons tok
      by (auto simp: parse_value.simps(2) js_def
          dest: parse_string_chars_length parse_number_length expect_literal_length
          split: if_splits option.splits)
    then show ?thesis
      using ls same assms by (intro token) simp_all
  qed
qed

lemma parse_elements_fuel_cases:
  assumes "parse_elements (Suc n) s = Some (vs, r)"
  obtains (last) v r1 where "parse_value n s = Some (v, r1)" "length r < length r1"
      "\<And>m. parse_value m s = Some (v, r1) \<Longrightarrow> parse_elements (Suc m) s = Some (vs, r)"
    | (more) v r1 t where "parse_value n s = Some (v, r1)" "length t < length r1"
      "\<exists>ws. parse_elements n t = Some (ws, r) \<and> (\<forall>m. parse_value m s = Some (v, r1) \<longrightarrow>
              parse_elements m t = Some (ws, r) \<longrightarrow> parse_elements (Suc m) s = Some (vs, r))"
proof -
  obtain v r1 where v: "parse_value n s = Some (v, r1)"
    using assms by (auto simp: parse_elements.simps(2) split: option.splits)
  show ?thesis
  proof (cases "skip_ws r1")
    case Nil
    with assms v show ?thesis by (simp add: parse_elements.simps(2))
  next
    case (Cons c cs)
    have lc: "length cs < length r1"
      using length_skip_ws [of r1] Cons by simp
    show ?thesis
    proof (cases "c = 0x5D")
      case True
      with assms v Cons have "vs = [v]" "r = cs"
        by (simp_all add: parse_elements.simps(2))
      then show ?thesis
        using v lc Cons True by (intro last [of v r1]) (simp_all add: parse_elements.simps(2))
    next
      case False
      with assms v Cons obtain ws where c: "c = 0x2C" and ws: "parse_elements n cs = Some (ws, r)"
        and vs: "vs = v # ws"
        by (auto simp: parse_elements.simps(2) split: if_splits option.splits)
      show ?thesis
        using v lc ws Cons c vs
        by (intro more [of v r1 cs]) (auto simp: parse_elements.simps(2))
    qed
  qed
qed

lemma parse_members_fuel_cases:
  assumes "parse_members (Suc n) s = Some (ms, r)"
  obtains (last) t v r1 where "length t < length s" "parse_value n t = Some (v, r1)"
      "length r < length r1"
      "\<And>m. parse_value m t = Some (v, r1) \<Longrightarrow> parse_members (Suc m) s = Some (ms, r)"
    | (more) t v r1 u where "length t < length s" "parse_value n t = Some (v, r1)"
      "length u < length r1"
      "\<exists>ns. parse_members n u = Some (ns, r) \<and> (\<forall>m. parse_value m t = Some (v, r1) \<longrightarrow>
              parse_members m u = Some (ns, r) \<longrightarrow> parse_members (Suc m) s = Some (ms, r))"
proof -
  obtain qs where q: "skip_ws s = 0x22 # qs"
    using assms by (auto simp: parse_members.simps(2) split: list.splits if_splits)
  have lq: "length qs < length s"
    using length_skip_ws [of s] q by simp
  obtain k r0 where k: "parse_string_chars qs = Some (k, r0)"
    using assms q by (auto simp: parse_members.simps(2) split: option.splits)
  have l0: "length r0 < length qs"
    using k by (rule parse_string_chars_length)
  obtain t where t: "skip_ws r0 = 0x3A # t"
    using assms q k by (auto simp: parse_members.simps(2) split: list.splits if_splits)
  have lt: "length t < length s"
    using length_skip_ws [of r0] t l0 lq by simp
  obtain v r1 where v: "parse_value n t = Some (v, r1)"
    using assms q k t by (auto simp: parse_members.simps(2) split: option.splits)
  show ?thesis
  proof (cases "skip_ws r1")
    case Nil
    with assms q k t v show ?thesis by (simp add: parse_members.simps(2))
  next
    case (Cons e es)
    have le: "length es < length r1"
      using length_skip_ws [of r1] Cons by simp
    show ?thesis
    proof (cases "e = 0x7D")
      case True
      with assms q k t v Cons have "ms = [(k, v)]" "r = es"
        by (simp_all add: parse_members.simps(2))
      then show ?thesis
        using lt v le q k t Cons True
        by (intro last [of t v r1]) (simp_all add: parse_members.simps(2))
    next
      case False
      with assms q k t v Cons obtain ns where e: "e = 0x2C"
        and ns: "parse_members n es = Some (ns, r)" and ms: "ms = (k, v) # ns"
        by (auto simp: parse_members.simps(2) split: if_splits option.splits)
      show ?thesis
        using lt v le ns q k t Cons e ms
        by (intro more [of t v r1 es]) (auto simp: parse_members.simps(2))
    qed
  qed
qed

text \<open>
  A successful parse consumes input, and succeeds the same with any bound that is at least
  the number of characters consumed.
\<close>

lemma fuel_adequate:
  "(\<forall>s v r. parse_value n s = Some (v, r) \<longrightarrow>
      length r < length s \<and> (\<forall>m. length s - length r \<le> m \<longrightarrow> parse_value m s = Some (v, r)))
   \<and> (\<forall>s vs r. parse_elements n s = Some (vs, r) \<longrightarrow>
      length r < length s
      \<and> (\<forall>m. length s - length r \<le> m \<longrightarrow> parse_elements m s = Some (vs, r)))
   \<and> (\<forall>s ms r. parse_members n s = Some (ms, r) \<longrightarrow>
      length r < length s
      \<and> (\<forall>m. length s - length r \<le> m \<longrightarrow> parse_members m s = Some (ms, r)))"
proof (induction n)
  case 0
  show ?case by simp
next
  case (Suc n)
  then have V: "\<And>s v r. parse_value n s = Some (v, r) \<Longrightarrow> length r < length s"
    and V': "\<And>s v r m. parse_value n s = Some (v, r) \<Longrightarrow> length s - length r \<le> m \<Longrightarrow>
              parse_value m s = Some (v, r)"
    and E: "\<And>s vs r. parse_elements n s = Some (vs, r) \<Longrightarrow> length r < length s"
    and E': "\<And>s vs r m. parse_elements n s = Some (vs, r) \<Longrightarrow> length s - length r \<le> m \<Longrightarrow>
              parse_elements m s = Some (vs, r)"
    and M: "\<And>s ms r. parse_members n s = Some (ms, r) \<Longrightarrow> length r < length s"
    and M': "\<And>s ms r m. parse_members n s = Some (ms, r) \<Longrightarrow> length s - length r \<le> m \<Longrightarrow>
              parse_members m s = Some (ms, r)"
    by blast+
  have pv: "length r < length s
      \<and> (\<forall>m. length s - length r \<le> m \<longrightarrow> parse_value m s = Some (v, r))"
    if p: "parse_value (Suc n) s = Some (v, r)" for s v r
    using p
  proof (cases rule: parse_value_fuel_cases)
    case (members t)
    from p members(2) [of n] obtain ms where ms: "parse_members n t = Some (ms, r)"
      and v: "v = build_object ms"
      by (auto split: option.splits)
    have l: "length r < length t" using ms by (rule M)
    have "parse_value m s = Some (v, r)" if h: "length s - length r \<le> m" for m
    proof -
      obtain m' where m': "m = Suc m'"
        using h l members(1) by (cases m) simp_all
      have le: "length t - length r \<le> m'"
        using h l members(1) m' by simp
      have "parse_members m' t = Some (ms, r)"
        using ms le by (rule M')
      then show ?thesis by (simp add: m' members(2) v)
    qed
    then show ?thesis using l members(1) by simp
  next
    case (elements t)
    from p elements(2) [of n] obtain vs where vs: "parse_elements n t = Some (vs, r)"
      and v: "v = JArr vs"
      by (auto split: option.splits)
    have l: "length r < length t" using vs by (rule E)
    have "parse_value m s = Some (v, r)" if h: "length s - length r \<le> m" for m
    proof -
      obtain m' where m': "m = Suc m'"
        using h l elements(1) by (cases m) simp_all
      have le: "length t - length r \<le> m'"
        using h l elements(1) m' by simp
      have "parse_elements m' t = Some (vs, r)"
        using vs le by (rule E')
      then show ?thesis by (simp add: m' elements(2) v)
    qed
    then show ?thesis using l elements(1) by simp
  next
    case token
    have "parse_value m s = Some (v, r)" if h: "length s - length r \<le> m" for m
    proof -
      obtain m' where "m = Suc m'"
        using h token(1) by (cases m) simp_all
      then show ?thesis by (simp add: token(2))
    qed
    then show ?thesis using token(1) by simp
  qed
  have pe: "length r < length s
      \<and> (\<forall>m. length s - length r \<le> m \<longrightarrow> parse_elements m s = Some (vs, r))"
    if p: "parse_elements (Suc n) s = Some (vs, r)" for s vs r
    using p
  proof (cases rule: parse_elements_fuel_cases)
    case (last v r1)
    have l1: "length r1 < length s" using last(1) by (rule V)
    have "parse_elements m s = Some (vs, r)" if h: "length s - length r \<le> m" for m
    proof -
      obtain m' where m': "m = Suc m'"
        using h l1 last(2) by (cases m) simp_all
      have le: "length s - length r1 \<le> m'"
        using h l1 last(2) m' by simp
      have "parse_value m' s = Some (v, r1)"
        using last(1) le by (rule V')
      then show ?thesis unfolding m' by (rule last(3))
    qed
    then show ?thesis using l1 last(2) by simp
  next
    case (more v r1 t)
    then obtain ws where ws: "parse_elements n t = Some (ws, r)"
      and step: "\<And>m. parse_value m s = Some (v, r1) \<Longrightarrow> parse_elements m t = Some (ws, r) \<Longrightarrow>
                  parse_elements (Suc m) s = Some (vs, r)"
      by blast
    have l1: "length r1 < length s" using more(1) by (rule V)
    have l2: "length r < length t" using ws by (rule E)
    have "parse_elements m s = Some (vs, r)" if h: "length s - length r \<le> m" for m
    proof -
      obtain m' where m': "m = Suc m'"
        using h l1 l2 more(2) by (cases m) simp_all
      have le1: "length s - length r1 \<le> m'" and le2: "length t - length r \<le> m'"
        using h l1 l2 more(2) m' by simp_all
      have "parse_value m' s = Some (v, r1)"
        using more(1) le1 by (rule V')
      moreover have "parse_elements m' t = Some (ws, r)"
        using ws le2 by (rule E')
      ultimately show ?thesis unfolding m' by (rule step)
    qed
    then show ?thesis using l1 l2 more(2) by simp
  qed
  have pm: "length r < length s
      \<and> (\<forall>m. length s - length r \<le> m \<longrightarrow> parse_members m s = Some (ms, r))"
    if p: "parse_members (Suc n) s = Some (ms, r)" for s ms r
    using p
  proof (cases rule: parse_members_fuel_cases)
    case (last t v r1)
    have l1: "length r1 < length t" using last(2) by (rule V)
    have "parse_members m s = Some (ms, r)" if h: "length s - length r \<le> m" for m
    proof -
      obtain m' where m': "m = Suc m'"
        using h l1 last(1,3) by (cases m) simp_all
      have le: "length t - length r1 \<le> m'"
        using h l1 last(1,3) m' by simp
      have "parse_value m' t = Some (v, r1)"
        using last(2) le by (rule V')
      then show ?thesis unfolding m' by (rule last(4))
    qed
    then show ?thesis using l1 last(1,3) by simp
  next
    case (more t v r1 u)
    then obtain ns where ns: "parse_members n u = Some (ns, r)"
      and step: "\<And>m. parse_value m t = Some (v, r1) \<Longrightarrow> parse_members m u = Some (ns, r) \<Longrightarrow>
                  parse_members (Suc m) s = Some (ms, r)"
      by blast
    have l1: "length r1 < length t" using more(2) by (rule V)
    have l2: "length r < length u" using ns by (rule M)
    have "parse_members m s = Some (ms, r)" if h: "length s - length r \<le> m" for m
    proof -
      obtain m' where m': "m = Suc m'"
        using h l1 l2 more(1,3) by (cases m) simp_all
      have le1: "length t - length r1 \<le> m'" and le2: "length u - length r \<le> m'"
        using h l1 l2 more(1,3) m' by simp_all
      have "parse_value m' t = Some (v, r1)"
        using more(2) le1 by (rule V')
      moreover have "parse_members m' u = Some (ns, r)"
        using ns le2 by (rule M')
      ultimately show ?thesis unfolding m' by (rule step)
    qed
    then show ?thesis using l1 l2 more(1,3) by simp
  qed
  show ?case
    by (intro conjI allI impI pv pe pm)
qed

lemma JSON_parse_any_fuel:
  assumes "parse_value n s = Some (v, r)" and "skip_ws r = []"
  shows "JSON_parse s = Inr v"
proof -
  have "\<forall>m. length s - length r \<le> m \<longrightarrow> parse_value m s = Some (v, r)"
    using fuel_adequate [of n] assms(1) by blast
  moreover have "length s - length r \<le> Suc (length s)"
    by simp
  ultimately have "parse_value (Suc (length s)) s = Some (v, r)"
    by blast
  then show ?thesis
    using assms(2) by (simp add: JSON_parse_def)
qed

lemma JSON_parse_error_any_fuel:
  assumes "JSON_parse s = Inl e" and "parse_value n s = Some (v, r)"
  shows "skip_ws r \<noteq> []"
  using JSON_parse_any_fuel [OF assms(2)] assms(1) by auto

subsection \<open>The calendar\<close>

lemma div_bounds_int:
  fixes x k :: int
  assumes "0 < k"
  shows "k * (x div k) \<le> x" and "x < k * (x div k) + k"
  using int_div_mult_bounds [OF assms, of x] by (simp_all add: algebra_simps)

lemma DayFromYear_linear:
  fixes a b c y :: int
  assumes "4 * a \<le> y - 1969" "y - 1969 < 4 * a + 4"
    and "100 * b \<le> y - 1901" "y - 1901 < 100 * b + 100"
    and "400 * c \<le> y - 1601" "y - 1601 < 400 * c + 400"
  shows "146097 * (y - 1970) - 607 < 400 * (365 * (y - 1970) + a - b + c)"
    and "400 * (365 * (y - 1970) + a - b + c) < 146097 * (y - 1970) + 593"
proof -
  show "146097 * (y - 1970) - 607 < 400 * (365 * (y - 1970) + a - b + c)"
    using assms by (simp add: algebra_simps)
  show "400 * (365 * (y - 1970) + a - b + c) < 146097 * (y - 1970) + 593"
    using assms by (simp add: algebra_simps)
qed

lemma DayFromYear_bounds:
  "146097 * (y - 1970) - 607 < 400 * DayFromYear y"
  "400 * DayFromYear y < 146097 * (y - 1970) + 593"
proof -
  have a: "4 * ((y - 1969) div 4) \<le> y - 1969" "y - 1969 < 4 * ((y - 1969) div 4) + 4"
    by (rule div_bounds_int, simp)+
  have b: "100 * ((y - 1901) div 100) \<le> y - 1901" "y - 1901 < 100 * ((y - 1901) div 100) + 100"
    by (rule div_bounds_int, simp)+
  have c: "400 * ((y - 1601) div 400) \<le> y - 1601" "y - 1601 < 400 * ((y - 1601) div 400) + 400"
    by (rule div_bounds_int, simp)+
  show "146097 * (y - 1970) - 607 < 400 * DayFromYear y"
    unfolding DayFromYear_def by (rule DayFromYear_linear(1) [OF a b c])
  show "400 * DayFromYear y < 146097 * (y - 1970) + 593"
    unfolding DayFromYear_def by (rule DayFromYear_linear(2) [OF a b c])
qed

lemma div_succ_int:
  fixes x k :: int
  assumes "0 < k"
  shows "(x + 1) div k = x div k + (if (x + 1) mod k = 0 then 1 else 0)"
proof -
  have r: "0 \<le> x mod k" "x mod k < k" using assms by simp_all
  have x: "x = k * (x div k) + x mod k" by simp
  show ?thesis
  proof (cases "x mod k + 1 = k")
    case True
    have "x + 1 = k * (x div k) + (x mod k + 1)"
      using x by linarith
    also have "\<dots> = k * (x div k + 1) + 0"
      unfolding True by (simp add: algebra_simps)
    finally have e: "x + 1 = k * (x div k + 1) + 0" .
    have "(x + 1) div k = x div k + 1"
      by (rule int_div_pos_eq [OF e]) (simp_all add: assms)
    moreover have "(x + 1) mod k = 0"
      by (rule int_mod_pos_eq [OF e]) (simp_all add: assms)
    ultimately show ?thesis by simp
  next
    case False
    then have lt: "x mod k + 1 < k" using r by linarith
    have e: "x + 1 = k * (x div k) + (x mod k + 1)"
      using x by linarith
    have p: "0 \<le> x mod k + 1" using r by linarith
    have "(x + 1) div k = x div k"
      using e p lt by (rule int_div_pos_eq)
    moreover have "(x + 1) mod k = x mod k + 1"
      using e p lt by (rule int_mod_pos_eq)
    ultimately show ?thesis using r by simp
  qed
qed

lemma mod_mult_self_diff_int:
  fixes y k :: int
  shows "(y - c * k) mod k = y mod k"
  using mod_mult_self1 [of y "- c" k] by simp

lemma DayFromYear_step:
  "DayFromYear (y + 1) = DayFromYear y + (if InLeapYear y then 366 else 365)"
proof -
  have a: "(y - 1968) div 4 = (y - 1969) div 4 + (if y mod 4 = 0 then 1 else 0)"
  proof -
    have "(y - 1968) mod 4 = (y - 492 * 4) mod 4"
      by simp
    also have "\<dots> = y mod 4"
      by (rule mod_mult_self_diff_int)
    finally show ?thesis
      using div_succ_int [of 4 "y - 1969"] by simp
  qed
  have b: "(y - 1900) div 100 = (y - 1901) div 100 + (if y mod 100 = 0 then 1 else 0)"
  proof -
    have "(y - 1900) mod 100 = (y - 19 * 100) mod 100"
      by simp
    also have "\<dots> = y mod 100"
      by (rule mod_mult_self_diff_int)
    finally show ?thesis
      using div_succ_int [of 100 "y - 1901"] by simp
  qed
  have c: "(y - 1600) div 400 = (y - 1601) div 400 + (if y mod 400 = 0 then 1 else 0)"
  proof -
    have "(y - 1600) mod 400 = (y - 4 * 400) mod 400"
      by simp
    also have "\<dots> = y mod 400"
      by (rule mod_mult_self_diff_int)
    finally show ?thesis
      using div_succ_int [of 400 "y - 1601"] by simp
  qed
  have d: "y mod 100 = 0" if "y mod 400 = 0"
  proof -
    have "400 dvd y" using that by (simp add: mod_eq_0_iff_dvd)
    moreover have "(100::int) dvd 400" by simp
    ultimately have "100 dvd y" by (metis dvd_trans)
    then show ?thesis by (simp add: mod_eq_0_iff_dvd)
  qed
  have e: "y mod 4 = 0" if "y mod 100 = 0"
  proof -
    have "100 dvd y" using that by (simp add: mod_eq_0_iff_dvd)
    moreover have "(4::int) dvd 100" by simp
    ultimately have "4 dvd y" by (metis dvd_trans)
    then show ?thesis by (simp add: mod_eq_0_iff_dvd)
  qed
  define A :: int where "A = (if y mod 4 = 0 then 1 else 0)"
  define B :: int where "B = (if y mod 100 = 0 then 1 else 0)"
  define C :: int where "C = (if y mod 400 = 0 then 1 else 0)"
  have s: "y + 1 - 1970 = y - 1969" "y + 1 - 1969 = y - 1968" "y + 1 - 1901 = y - 1900"
    "y + 1 - 1601 = y - 1600"
    by simp_all
  have leap: "(if InLeapYear y then 366 else 365) = 365 + A - B + C"
  proof (cases "y mod 4 = 0")
    case False
    with d e show ?thesis by (auto simp: InLeapYear_def A_def B_def C_def)
  next
    case 4: True
    show ?thesis
    proof (cases "y mod 100 = 0")
      case False
      with 4 d show ?thesis by (auto simp: InLeapYear_def A_def B_def C_def)
    next
      case True
      with 4 show ?thesis by (simp add: InLeapYear_def A_def B_def C_def)
    qed
  qed
  have lin: "365 * (y - 1969) + (p + A) - (q + B) + (r + C)
      = 365 * (y - 1970) + p - q + r + (365 + A - B + C)" for p q r :: int
    by (simp add: algebra_simps)
  show ?thesis
    unfolding DayFromYear_def s a b c leap A_def [symmetric] B_def [symmetric] C_def [symmetric]
    by (rule lin)
qed

lemma DayFromYear_mono_step: "DayFromYear y < DayFromYear (y + 1)"
  by (simp add: DayFromYear_step)

lemma YearFromDay_correct:
  shows "DayFromYear (YearFromDay d) \<le> d" and "d < DayFromYear (YearFromDay d + 1)"
proof -
  define x where "x = (400 * d) div 146097"
  have x: "146097 * x \<le> 400 * d" "400 * d < 146097 * x + 146097"
    unfolding x_def by (rule div_bounds_int, simp)+
  let ?y = "1970 + x"
  have lo: "DayFromYear (?y - 1) \<le> d"
    using DayFromYear_bounds(2) [of "?y - 1"] x(1) by simp
  have "d < DayFromYear (?y + 1 + 1)"
    using DayFromYear_bounds(1) [of "?y + 1 + 1"] x(2) by simp
  then have hi: "d < DayFromYear (?y + 2)"
    by (simp add: add.assoc)
  have y: "YearFromDay d =
      (if DayFromYear (?y + 1) \<le> d then ?y + 1 else if DayFromYear ?y \<le> d then ?y else ?y - 1)"
    by (simp add: YearFromDay_def Let_def x_def)
  have e: "?y - 1 + 1 = ?y" "?y + 1 + 1 = ?y + 2"
    by simp_all
  show "DayFromYear (YearFromDay d) \<le> d"
    unfolding y using lo by simp
  show "d < DayFromYear (YearFromDay d + 1)"
    unfolding y using hi by (simp add: e)
qed

lemma day_within_year:
  "0 \<le> d - DayFromYear (YearFromDay d)"
  "d - DayFromYear (YearFromDay d) < (if InLeapYear (YearFromDay d) then 366 else 365)"
  using YearFromDay_correct [of d] by (simp_all add: DayFromYear_step)

lemma YearFromDay_range:
  assumes "- 100000000 \<le> d" and "d \<le> 100000000"
  shows "- 271822 < YearFromDay d" and "YearFromDay d < 275761"
proof -
  let ?Y = "YearFromDay d"
  have "400 * d < 146097 * (?Y + 1 - 1970) + 593"
    using YearFromDay_correct(2) [of d] DayFromYear_bounds(2) [of "?Y + 1"] by linarith
  then show "- 271822 < ?Y"
    using assms(1) by simp
  have "146097 * (?Y - 1970) - 607 < 400 * d"
    using YearFromDay_correct(1) [of d] DayFromYear_bounds(1) [of ?Y] by linarith
  then show "?Y < 275761"
    using assms(2) by simp
qed

subsection \<open>The date-time string of a time value\<close>

lemma length_dec_digits_le:
  assumes "0 \<le> n" and "n < 10 ^ w" and "0 < w"
  shows "length (dec_digits n) \<le> w"
proof (cases "n = 0")
  case True
  then show ?thesis using assms(3) by (simp add: dec_digits_small)
next
  case False
  with assms(1) have n: "0 < n" by simp
  have "(10::int) ^ (length (dec_digits n) - 1) < 10 ^ w"
    using dec_digits_bounds [OF n] assms(2) by linarith
  then have "length (dec_digits n) - 1 < w"
    by simp
  then show ?thesis by simp
qed

lemma pad_props:
  assumes "0 \<le> n" and "n < 10 ^ w" and "0 < w"
  shows "length (pad w n) = w" and "\<forall>c \<in> set (pad w n). is_digit c"
    and "digits_val (pad w n) = n"
proof -
  have l: "length (dec_digits n) \<le> w"
    using assms by (rule length_dec_digits_le)
  show "length (pad w n) = w"
    using l by (simp add: pad_def)
  show "\<forall>c \<in> set (pad w n). is_digit c"
    using dec_digits_all_digits [OF assms(1)] by (auto simp: pad_def not_digit_chars)
  show "digits_val (pad w n) = n"
    using digits_val_dec_digits [OF assms(1)] by (simp add: pad_def digits_val_pad_left)
qed

lemma fixed_digits_pad:
  assumes "0 \<le> n" and "n < 10 ^ w" and "0 < w"
  shows "fixed_digits w (pad w n @ r) = Some (n, r)"
  using pad_props [OF assms] by (simp add: fixed_digits_def list_all_iff)

lemma date_field_pad:
  assumes "0 \<le> n" and "n < 10 ^ w" and "0 < w"
  shows "date_field w sep (pad w n @ sep # r) = Some (n, r)"
  by (simp add: date_field_def fixed_digits_pad [OF assms])

lemma pad_first_digit:
  assumes "0 \<le> n" and "n < 10 ^ w" and "0 < w"
  shows "\<exists>c cs. pad w n = c # cs \<and> is_digit c"
proof -
  have "pad w n \<noteq> []"
    using pad_props(1) [OF assms] assms(3) by auto
  then obtain c cs where "pad w n = c # cs" by (cases "pad w n") auto
  then show ?thesis
    using pad_props(2) [OF assms] by auto
qed

lemma parse_year_text:
  assumes "- 1000000 < y" and "y < 1000000"
  shows "parse_year ((if 0 \<le> y \<and> y \<le> 9999 then pad 4 y
                      else (if y < 0 then 0x2D else 0x2B) # pad 6 \<bar>y\<bar>) @ 0x2D # r)
         = Some (y, r)"
proof (cases "0 \<le> y \<and> y \<le> 9999")
  case True
  then have b: "0 \<le> y" "y < 10 ^ 4" by simp_all
  obtain c cs where c: "pad 4 y = c # cs" "is_digit c"
    using pad_first_digit [OF b] by auto
  have "c \<noteq> 0x2B" "c \<noteq> 0x2D"
    using c(2) not_digit_chars by auto
  then have "parse_year (pad 4 y @ 0x2D # r) = date_field 4 0x2D (pad 4 y @ 0x2D # r)"
    by (simp add: parse_year_def c(1))
  with True show ?thesis
    by (simp add: date_field_pad [OF b])
next
  case False
  have b: "0 \<le> \<bar>y\<bar>" "\<bar>y\<bar> < 10 ^ 6"
    using assms by simp_all
  note f = date_field_pad [OF b, of "0x2D" r]
  show ?thesis
  proof (cases "y < 0")
    case True
    with False f show ?thesis by (simp add: parse_year_def)
  next
    case nn: False
    with False f show ?thesis by (simp add: parse_year_def)
  qed
qed

lemma MonthDate_props:
  assumes "0 \<le> w" and "w < (if leap then 366 else 365)" and "MonthDate w leap = (mo, d)"
  shows "1 \<le> mo" and "mo \<le> 12" and "1 \<le> d" and "d \<le> DaysInMonth mo leap"
    and "DaysBeforeMonth mo leap + d - 1 = w"
  using assms
  by (auto simp: MonthDate_def DaysBeforeMonth_def DaysInMonth_def Let_def split: if_splits)

lemma time_of_day:
  fixes ms :: int
  assumes "0 \<le> ms" and "ms < 86400000"
  shows "0 \<le> ms div 3600000" and "ms div 3600000 \<le> 23"
    and "ms div 3600000 * 3600000 + ms div 60000 mod 60 * 60000 + ms div 1000 mod 60 * 1000
         + ms mod 1000 = ms"
proof -
  show "0 \<le> ms div 3600000"
    using assms(1) by (simp add: pos_imp_zdiv_nonneg_iff)
  have "ms div 3600000 < 24"
    using assms(2) by (intro int_div_less) simp_all
  then show "ms div 3600000 \<le> 23" by simp
  have a: "ms div 60000 = ms div 1000 div 60" and b: "ms div 3600000 = ms div 60000 div 60"
    by (simp_all add: zdiv_zmult2_eq)
  have 1: "ms div 3600000 * 60 + ms div 60000 mod 60 = ms div 60000"
    unfolding b by simp
  have 2: "ms div 60000 * 60 + ms div 1000 mod 60 = ms div 1000"
    unfolding a by simp
  have 3: "ms div 1000 * 1000 + ms mod 1000 = ms"
    by simp
  define h mi s r where "h = ms div 3600000" and "mi = ms div 60000 mod 60"
    and "s = ms div 1000 mod 60" and "r = ms mod 1000"
  define p q where "p = ms div 60000" and "q = ms div 1000"
  have "h * 60 + mi = p" "p * 60 + s = q" "q * 1000 + r = ms"
    using 1 2 3 by (simp_all add: h_def mi_def s_def r_def p_def q_def)
  then have "h * 3600000 + mi * 60000 + s * 1000 + r = ms"
    by (simp add: algebra_simps)
  then show "ms div 3600000 * 3600000 + ms div 60000 mod 60 * 60000 + ms div 1000 mod 60 * 1000
         + ms mod 1000 = ms"
    by (simp only: h_def mi_def s_def r_def)
qed

lemma parse_toISOString:
  assumes "\<bar>t\<bar> \<le> 8640000000000000"
  shows "parse_date_time (toISOString t) = Some t"
proof -
  define day ms y where "day = t div 86400000" and "ms = t mod 86400000"
    and "y = YearFromDay day"
  obtain mo d where md: "MonthDate (day - DayFromYear y) (InLeapYear y) = (mo, d)"
    by (cases "MonthDate (day - DayFromYear y) (InLeapYear y)")
  have ms: "0 \<le> ms" "ms < 86400000"
    by (simp_all add: ms_def)
  have t: "day * 86400000 + ms = t"
    by (simp add: day_def ms_def)
  have dayr: "- 100000000 \<le> day" "day \<le> 100000000"
    using assms t ms by linarith+
  have yr: "- 1000000 < y" "y < 1000000"
    using YearFromDay_range [OF dayr] by (simp_all add: y_def)
  note w = day_within_year [of day, folded y_def]
  note m = MonthDate_props [OF w md]
  note tod = time_of_day [OF ms]
  define h mi sec msec where "h = ms div 3600000" and "mi = ms div 60000 mod 60"
    and "sec = ms div 1000 mod 60" and "msec = ms mod 1000"
  have fields: "0 \<le> mo" "mo < 10 ^ 2" "0 \<le> d" "d < 10 ^ 2" "0 \<le> h" "h < 10 ^ 2"
    "0 \<le> mi" "mi < 10 ^ 2" "0 \<le> sec" "sec < 10 ^ 2" "0 \<le> msec" "msec < 10 ^ 3"
    using m(1,2,3,4) tod(1,2) by (auto simp: h_def mi_def sec_def msec_def DaysInMonth_def split: if_splits)
  let ?year = "(if 0 \<le> y \<and> y \<le> 9999 then pad 4 y
                else (if y < 0 then 0x2D else 0x2B) # pad 6 \<bar>y\<bar>)"
  have iso: "toISOString t = ?year @ 0x2D # (pad 2 mo @ 0x2D # (pad 2 d @ 0x54 # (pad 2 h
      @ 0x3A # (pad 2 mi @ 0x3A # (pad 2 sec @ 0x2E # (pad 3 msec @ 0x5A # []))))))"
    using md
    by (simp add: toISOString_def Let_def day_def [symmetric] ms_def [symmetric]
        y_def [symmetric] h_def mi_def sec_def msec_def)
  have val: "(DayFromYear y + DaysBeforeMonth mo (InLeapYear y) + d - 1) * 86400000
        + h * 3600000 + mi * 60000 + sec * 1000 + msec = t"
  proof -
    have "DayFromYear y + DaysBeforeMonth mo (InLeapYear y) + d - 1 = day"
      using m(5) by simp
    moreover have "h * 3600000 + mi * 60000 + sec * 1000 + msec = ms"
      using tod(3) by (simp add: h_def mi_def sec_def msec_def)
    ultimately show ?thesis using t by simp
  qed
  have ok: "1 \<le> mo \<and> mo \<le> 12 \<and> 1 \<le> d \<and> d \<le> DaysInMonth mo (InLeapYear y)
      \<and> h \<le> 23 \<and> mi \<le> 59 \<and> sec \<le> 59"
  proof -
    have "mi < 60" "sec < 60"
      by (simp_all add: mi_def sec_def)
    then show ?thesis
      using m(1,2,3,4) tod(2) by (simp add: h_def)
  qed
  have f: "date_field 2 sep (pad 2 mo @ sep # r) = Some (mo, r)"
    "date_field 2 sep (pad 2 d @ sep # r) = Some (d, r)"
    "date_field 2 sep (pad 2 h @ sep # r) = Some (h, r)"
    "date_field 2 sep (pad 2 mi @ sep # r) = Some (mi, r)"
    "date_field 2 sep (pad 2 sec @ sep # r) = Some (sec, r)"
    "date_field 3 sep (pad 3 msec @ sep # r) = Some (msec, r)" for sep r
    using fields by (simp_all add: date_field_pad)
  show ?thesis
    unfolding iso parse_date_time_def
    by (simp only: parse_year_text [OF yr] f option.case prod.case ok val Let_def assms
        if_True simp_thms)
qed

section \<open>What the handler returns\<close>

subsection \<open>The depth of the values that the handler serialises\<close>

lemma JSON_parse_error: "JSON_parse s = Inl e \<Longrightarrow> e = SyntaxError"
  by (cases e) (auto simp: JSON_parse_def split: option.splits prod.splits if_splits)

lemma depth_response_payload: "depth (response_payload ts rid b) = Suc (depth b)"
  by (simp add: response_payload_def)

lemma depth_string_map: "depth (string_map m) = 1"
  unfolding string_map_def by (induction m) auto

lemma depth_nullable_map: "depth (nullable_map m) \<le> 1"
  by (cases m) (simp_all add: nullable_map_def depth_string_map)

lemma depth_event_value:
  "depth (event_value ev) = Suc (max 1 (depth (requestContext ev)))"
  using depth_nullable_map [of "pathParameters ev"]
    depth_nullable_map [of "queryStringParameters ev"]
    depth_nullable_map [of "stageVariables ev"]
  by (simp add: event_value_def depth_string_map split: option.splits)





subsection \<open>The result of an invocation\<close>

lemma result_handler:
  "result (handler stack ev ctx now) =
    (if depth (event_value ev) \<le> stack then
       (case (case body ev of None \<Rightarrow> Inr (JObj [])
              | Some b \<Rightarrow> if b = [] then Inr (JObj []) else JSON_parse b) of
          Inl e \<Rightarrow> Inl e
        | Inr b \<Rightarrow>
            if depth b < stack then
              Inr \<lparr>statusCode = 200, resultHeaders = ok_headers,
                   resultBody = json_text
                     (response_payload (toISOString now) (awsRequestId ctx) b)\<rparr>
            else Inl RangeError)
     else Inl RangeError)"
  by (simp add: handler_def Let_def ok_headers_def JSON_stringify_def JSON_stringify_spaces_def
      depth_response_payload Suc_le_eq split: sum.splits option.splits)

text \<open>the event is nested too deep for the log line: nothing after line 5 runs\<close>

lemma result_handler_log_raises:
  "\<not> depth (event_value ev) \<le> stack \<Longrightarrow> result (handler stack ev ctx now) = Inl RangeError"
  by (simp add: result_handler)

lemma logged_nothing:
  "\<not> depth (event_value ev) \<le> stack \<Longrightarrow> logged (handler stack ev ctx now) = []"
  by (simp add: handler_def JSON_stringify_spaces_def)

lemma result_handler_absent:
  assumes "body ev = None \<or> body ev = Some []" and "depth (event_value ev) \<le> stack"
  shows "result (handler stack ev ctx now) =
     Inr \<lparr>statusCode = 200, resultHeaders = ok_headers,
          resultBody = json_text
            (response_payload (toISOString now) (awsRequestId ctx) (JObj []))\<rparr>"
proof -
  have "1 < stack"
    using assms(2) by (simp add: depth_event_value)
  then show ?thesis
    using assms by (auto simp: result_handler)
qed

lemma result_handler_parsed:
  "body ev = Some b \<Longrightarrow> b \<noteq> [] \<Longrightarrow> JSON_parse b = Inr v \<Longrightarrow>
   depth (event_value ev) \<le> stack \<Longrightarrow> depth v < stack \<Longrightarrow>
   result (handler stack ev ctx now) =
     Inr \<lparr>statusCode = 200, resultHeaders = ok_headers,
          resultBody = json_text
            (response_payload (toISOString now) (awsRequestId ctx) v)\<rparr>"
  by (simp add: result_handler)

text \<open>the value parsed is nested too deep for the response: line 17 raises\<close>

lemma result_handler_deep:
  "body ev = Some b \<Longrightarrow> b \<noteq> [] \<Longrightarrow> JSON_parse b = Inr v \<Longrightarrow> \<not> depth v < stack \<Longrightarrow>
   result (handler stack ev ctx now) = Inl RangeError"
  by (simp add: result_handler)

lemma result_handler_raises:
  "body ev = Some b \<Longrightarrow> b \<noteq> [] \<Longrightarrow> JSON_parse b = Inl e \<Longrightarrow>
   result (handler stack ev ctx now)
     = Inl (if depth (event_value ev) \<le> stack then SyntaxError else RangeError)"
  by (auto simp: result_handler dest: JSON_parse_error)

lemma JSON_parse_empty: "JSON_parse [] = Inl SyntaxError"
  by (simp add: JSON_parse_def skip_ws_def parse_value.simps)

lemma payload_keys_ordered:
  "key_ordered [js ''message'', js ''timestamp'', js ''requestId'', js ''body'']"
  by code_simp

lemma wf_response_payload: "wf_value b \<Longrightarrow> wf_value (response_payload ts rid b)"
  using payload_keys_ordered by (simp add: response_payload_def)

lemma json_norm_response_payload:
  "json_norm (response_payload ts rid b) = response_payload ts rid (json_norm b)"
  by (simp add: response_payload_def)

lemma response_decodes:
  "wf_value b \<Longrightarrow>
   JSON_parse (json_text (response_payload ts rid b)) = Inr (response_payload ts rid (json_norm b))"
  by (simp add: JSON_parse_json_text wf_response_payload json_norm_response_payload)

lemma payload_keys_distinct:
  "js ''message'' \<noteq> js ''timestamp''" "js ''message'' \<noteq> js ''requestId''"
  "js ''message'' \<noteq> js ''body''" "js ''timestamp'' \<noteq> js ''requestId''"
  "js ''timestamp'' \<noteq> js ''body''" "js ''requestId'' \<noteq> js ''body''"
  by (simp_all add: js_def)

lemma get_property_payload:
  "get_property (response_payload ts rid b) (js ''message'') = Some (JStr (js ''Hello, World!''))"
  "get_property (response_payload ts rid b) (js ''timestamp'') = Some (JStr ts)"
  "get_property (response_payload ts rid b) (js ''requestId'') = Some (JStr rid)"
  "get_property (response_payload ts rid b) (js ''body'') = Some b"
  using payload_keys_distinct
  by (simp_all add: get_property_def response_payload_def)

text \<open>
  Every response is the serialised payload of a well-formed body value, and the handler
  returns one only when both calls of \<open>JSON.stringify\<close> had room on the stack.
\<close>

lemma handler_response:
  assumes "result (handler stack ev ctx now) = Inr r"
  obtains b where "wf_value b"
    and "depth (event_value ev) \<le> stack" and "depth b < stack"
    and "body ev = None \<or> body ev = Some [] \<Longrightarrow> b = JObj []"
    and "\<And>B. body ev = Some B \<Longrightarrow> B \<noteq> [] \<Longrightarrow> JSON_parse B = Inr b"
    and "r = \<lparr>statusCode = 200, resultHeaders = ok_headers,
              resultBody = json_text
                (response_payload (toISOString now) (awsRequestId ctx) b)\<rparr>"
proof -
  have ev: "depth (event_value ev) \<le> stack"
    using assms by (rule contrapos_pp) (simp add: result_handler_log_raises)
  then have stack: "1 < stack"
    by (simp add: depth_event_value)
  show ?thesis
  proof (cases "body ev = None \<or> body ev = Some []")
    case True
    then have "r = \<lparr>statusCode = 200, resultHeaders = ok_headers,
                resultBody = json_text
                  (response_payload (toISOString now) (awsRequestId ctx) (JObj []))\<rparr>"
      using assms ev by (simp add: result_handler_absent)
    moreover have "wf_value (JObj [])" by simp
    ultimately show ?thesis
      using True ev stack by (intro that [of "JObj []"]) auto
  next
    case False
    then obtain B where B: "body ev = Some B" "B \<noteq> []"
      by (cases "body ev") auto
    show ?thesis
    proof (cases "JSON_parse B")
      case (Inl e)
      with B assms show ?thesis by (simp add: result_handler_raises)
    next
      case (Inr b)
      have d: "depth b < stack"
        using assms B Inr by (rule_tac ccontr) (simp add: result_handler_deep)
      have "wf_value b" using Inr by (rule JSON_parse_wf)
      moreover have "r = \<lparr>statusCode = 200, resultHeaders = ok_headers,
                resultBody = json_text
                  (response_payload (toISOString now) (awsRequestId ctx) b)\<rparr>"
        using assms B Inr ev d by (simp add: result_handler_parsed)
      ultimately show ?thesis
        using B Inr ev d by (intro that [of b]) auto
    qed
  qed
qed

lemma handler_echo:
  assumes "body ev = Some B" and "JSON_parse B = Inr v"
    and "depth (event_value ev) \<le> stack" and "depth v < stack"
  shows "\<exists>r. result (handler stack ev ctx now) = Inr r \<and> statusCode r = 200
           \<and> JSON_parse (resultBody r)
               = Inr (response_payload (toISOString now) (awsRequestId ctx) (json_norm v))"
proof -
  have "B \<noteq> []"
    using assms(2) by (auto simp: JSON_parse_empty)
  then have "result (handler stack ev ctx now)
      = Inr \<lparr>statusCode = 200, resultHeaders = ok_headers,
             resultBody = json_text
               (response_payload (toISOString now) (awsRequestId ctx) v)\<rparr>"
    using assms by (intro result_handler_parsed)
  moreover have "wf_value v"
    using assms(2) by (rule JSON_parse_wf)
  ultimately show ?thesis
    by (simp add: response_decodes)
qed




text \<open>
  The \<open>timestamp\<close> field of a response is the date-time string of the clock reading that
  \<open>new Date()\<close> took, and reading the string back gives exactly that reading: the handler
  neither rounds the reading nor shifts it to another time zone.
\<close>

lemma timestamp_reads_back:
  assumes "result (handler stack ev ctx now) = Inr r" and "\<bar>now\<bar> \<le> 8640000000000000"
  shows "\<exists>p ts. JSON_parse (resultBody r) = Inr p
           \<and> get_property p (js ''timestamp'') = Some (JStr ts)
           \<and> parse_date_time ts = Some now"
proof -
  obtain b where b: "wf_value b"
    and r: "r = \<lparr>statusCode = 200, resultHeaders = ok_headers,
              resultBody = json_text
                (response_payload (toISOString now) (awsRequestId ctx) b)\<rparr>"
    using assms(1) by (rule handler_response)
  have "JSON_parse (resultBody r)
      = Inr (response_payload (toISOString now) (awsRequestId ctx) (json_norm b))"
    using b by (simp add: r response_decodes)
  then show ?thesis
    using parse_toISOString [OF assms(2)] by (simp add: get_property_payload)
qed

section \<open>The claims\<close>







text \<open>
  C6: every response that the handler returns carries the headers
  \<open>Content-Type: application/json\<close> and \<open>Access-Control-Allow-Origin: *\<close>.
\<close>

theorem response_headers:
  assumes "result (handler stack ev ctx now) = Inr r"
  shows "map_of (resultHeaders r) (js ''Content-Type'') = Some (js ''application/json'')
         \<and> map_of (resultHeaders r) (js ''Access-Control-Allow-Origin'') = Some (js ''*'')"
proof -
  obtain b where "r = \<lparr>statusCode = 200, resultHeaders = ok_headers,
              resultBody = json_text
                (response_payload (toISOString now) (awsRequestId ctx) b)\<rparr>"
    using assms by (rule handler_response)
  then have "resultHeaders r = ok_headers"
    by simp
  moreover have "map_of ok_headers (js ''Content-Type'') = Some (js ''application/json'')"
    by (simp add: ok_headers_def)
  moreover have "map_of ok_headers (js ''Access-Control-Allow-Origin'') = Some (js ''*'')"
    by (simp add: ok_headers_def js_def)
  ultimately show ?thesis
    by simp
qed

theorem response_headers_witness:
  \<open>result (handler 1000 (sample_event (Some (js ''[true]''))) (sample_context (js ''r-2'')) 0)
     = Inr \<lparr>statusCode = 200, resultHeaders = ok_headers,
            resultBody = js ''{"message":"Hello, World!","timestamp":"1970-01-01T00:00:00.000Z","requestId":"r-2","body":[true]}''\<rparr>
   \<and> map_of ok_headers (js ''Content-Type'') = Some (js ''application/json'')
   \<and> map_of ok_headers (js ''Access-Control-Allow-Origin'') = Some (js ''*'')\<close>
proof -
  have h: \<open>result (handler 1000 (sample_event (Some (js ''[true]''))) (sample_context (js ''r-2'')) 0)
     = Inr \<lparr>statusCode = 200, resultHeaders = ok_headers,
            resultBody = js ''{"message":"Hello, World!","timestamp":"1970-01-01T00:00:00.000Z","requestId":"r-2","body":[true]}''\<rparr>\<close>
    by code_simp
  from response_headers [OF h] h show ?thesis
    by simp
qed




text \<open>
  C4: in every response that the handler returns, the \<open>requestId\<close> field of the decoded
  body is the string \<open>awsRequestId\<close> of the context, code unit for code unit.
\<close>

theorem request_id_echoed:
  assumes "result (handler stack ev ctx now) = Inr r"
  shows "\<exists>p. JSON_parse (resultBody r) = Inr p
           \<and> get_property p (js ''requestId'') = Some (JStr (awsRequestId ctx))"
proof -
  obtain b where b: "wf_value b"
    and r: "r = \<lparr>statusCode = 200, resultHeaders = ok_headers,
              resultBody = json_text
                (response_payload (toISOString now) (awsRequestId ctx) b)\<rparr>"
    using assms by (rule handler_response)
  have "JSON_parse (resultBody r)
      = Inr (response_payload (toISOString now) (awsRequestId ctx) (json_norm b))"
    using b by (simp add: r response_decodes)
  then show ?thesis
    by (simp add: get_property_payload)
qed

theorem request_id_echoed_witness:
  \<open>result (handler 1000 (sample_event (Some (js ''[true]''))) (sample_context (js ''r-"2"'')) 0)
     = Inr \<lparr>statusCode = 200, resultHeaders = ok_headers,
            resultBody = js ''{"message":"Hello, World!","timestamp":"1970-01-01T00:00:00.000Z","requestId":"r-'' @ [0x5C, 0x22] @ js ''2'' @ [0x5C, 0x22] @ js ''","body":[true]}''\<rparr>
   \<and> (\<exists>p. JSON_parse (resultBody \<lparr>statusCode = 200, resultHeaders = ok_headers,
            resultBody = js ''{"message":"Hello, World!","timestamp":"1970-01-01T00:00:00.000Z","requestId":"r-'' @ [0x5C, 0x22] @ js ''2'' @ [0x5C, 0x22] @ js ''","body":[true]}''\<rparr>) = Inr p
          \<and> get_property p (js ''requestId'') = Some (JStr (awsRequestId (sample_context (js ''r-"2"'')))))\<close>
proof -
  have h: \<open>result (handler 1000 (sample_event (Some (js ''[true]''))) (sample_context (js ''r-"2"'')) 0)
     = Inr \<lparr>statusCode = 200, resultHeaders = ok_headers,
            resultBody = js ''{"message":"Hello, World!","timestamp":"1970-01-01T00:00:00.000Z","requestId":"r-'' @ [0x5C, 0x22] @ js ''2'' @ [0x5C, 0x22] @ js ''","body":[true]}''\<rparr>\<close>
    by code_simp
  from request_id_echoed [OF h] h show ?thesis
    by blast
qed










text \<open>
  C7: for an event with the body \<open>{"x":1}\<close> and a context with the request id
  \<open>abc-123\<close>, at any reading of the clock and on any engine whose stack has room for the
  log line of the event, the handler returns status code 200 and a body that decodes to the
  object with the message \<open>Hello, World!\<close>, the timestamp of the clock reading, the
  request id \<open>abc-123\<close> and the body \<open>{"x":1}\<close>.
\<close>

theorem hello_scenario:
  assumes \<open>body ev = Some (js ''{"x":1}'')\<close> and "awsRequestId ctx = js ''abc-123''"
    and "depth (event_value ev) \<le> stack"
  shows "\<exists>r. result (handler stack ev ctx now) = Inr r \<and> statusCode r = 200
           \<and> JSON_parse (resultBody r)
               = Inr (JObj [(js ''message'', JStr (js ''Hello, World!'')),
                            (js ''timestamp'', JStr (toISOString now)),
                            (js ''requestId'', JStr (js ''abc-123'')),
                            (js ''body'', JObj [(js ''x'', JNum (Finite False 1 0))])])"
proof -
  have p: \<open>JSON_parse (js ''{"x":1}'') = Inr (JObj [(js ''x'', JNum (Finite False 1 0))])\<close>
    by code_simp
  have "1 < stack"
    using assms(3) by (simp add: depth_event_value)
  then have d: "depth (JObj [(js ''x'', JNum (Finite False 1 0))]) < stack"
    by simp
  from handler_echo [OF assms(1) p assms(3) d, of ctx now] show ?thesis
    by (simp add: assms(2) response_payload_def)
qed

theorem hello_scenario_witness:
  \<open>body (sample_event (Some (js ''{"x":1}''))) = Some (js ''{"x":1}'')
   \<and> awsRequestId (sample_context (js ''abc-123'')) = js ''abc-123''
   \<and> depth (event_value (sample_event (Some (js ''{"x":1}'')))) \<le> 1000
   \<and> result (handler 1000 (sample_event (Some (js ''{"x":1}''))) (sample_context (js ''abc-123''))
         1730610000123)
       = Inr \<lparr>statusCode = 200, resultHeaders = ok_headers,
              resultBody = js ''{"message":"Hello, World!","timestamp":"2024-11-03T05:00:00.123Z","requestId":"abc-123","body":{"x":1}}''\<rparr>
   \<and> (\<exists>r. result (handler 1000 (sample_event (Some (js ''{"x":1}''))) (sample_context (js ''abc-123''))
               1730610000123) = Inr r
          \<and> statusCode r = 200
          \<and> JSON_parse (resultBody r)
              = Inr (JObj [(js ''message'', JStr (js ''Hello, World!'')),
                           (js ''timestamp'', JStr (toISOString 1730610000123)),
                           (js ''requestId'', JStr (js ''abc-123'')),
                           (js ''body'', JObj [(js ''x'', JNum (Finite False 1 0))])]))\<close>
proof -
  have 1: \<open>body (sample_event (Some (js ''{"x":1}''))) = Some (js ''{"x":1}'')\<close>
    by (simp add: sample_event_def)
  have 2: "awsRequestId (sample_context (js ''abc-123'')) = js ''abc-123''"
    by (simp add: sample_context_def)
  have 3: \<open>result (handler 1000 (sample_event (Some (js ''{"x":1}''))) (sample_context (js ''abc-123''))
         1730610000123)
       = Inr \<lparr>statusCode = 200, resultHeaders = ok_headers,
              resultBody = js ''{"message":"Hello, World!","timestamp":"2024-11-03T05:00:00.123Z","requestId":"abc-123","body":{"x":1}}''\<rparr>\<close>
    by code_simp
  have 4: \<open>depth (event_value (sample_event (Some (js ''{"x":1}'')))) \<le> 1000\<close>
    by (simp add: depth_event_value sample_event_def)
  from hello_scenario [OF 1 2 4] 1 2 3 4 show ?thesis
    by blast
qed

text \<open>
  C8: in every response that the handler returns, the \<open>timestamp\<close> field of the decoded
  body is a string in the date-time format \<open>YYYY-MM-DDTHH:mm:ss.sssZ\<close> of ISO 8601, and the
  instant that it denotes is the reading of the clock that \<open>new Date()\<close> took at line 19.
  The invocation starts before line 19 runs and completes after it, so that on a clock that
  does not run backwards the reading lies between the readings \<open>start\<close> and \<open>finish\<close> of
  the clock at these two moments, and so does the instant of the timestamp.  A reading of
  the clock is a time value, at most 8640000000000000 milliseconds from the epoch.
\<close>

theorem timestamp_within_invocation:
  assumes "result (handler stack ev ctx now) = Inr r"
    and "start \<le> now" and "now \<le> finish" and "\<bar>now\<bar> \<le> 8640000000000000"
  shows "\<exists>p ts t. JSON_parse (resultBody r) = Inr p
           \<and> get_property p (js ''timestamp'') = Some (JStr ts)
           \<and> parse_date_time ts = Some t \<and> start \<le> t \<and> t \<le> finish"
  using timestamp_reads_back [OF assms(1,4)] assms(2,3) by blast

theorem timestamp_within_invocation_witness:
  \<open>result (handler 1000 (sample_event (Some (js ''{"x":1}''))) (sample_context (js ''abc-123''))
         1730610000123)
       = Inr \<lparr>statusCode = 200, resultHeaders = ok_headers,
              resultBody = js ''{"message":"Hello, World!","timestamp":"2024-11-03T05:00:00.123Z","requestId":"abc-123","body":{"x":1}}''\<rparr>
   \<and> (1730610000120 :: int) \<le> 1730610000123
   \<and> (1730610000123 :: int) \<le> 1730610000131
   \<and> \<bar>1730610000123 :: int\<bar> \<le> 8640000000000000
   \<and> parse_date_time (js ''2024-11-03T05:00:00.123Z'') = Some 1730610000123
   \<and> (\<exists>p ts t. JSON_parse (resultBody \<lparr>statusCode = 200, resultHeaders = ok_headers,
              resultBody = js ''{"message":"Hello, World!","timestamp":"2024-11-03T05:00:00.123Z","requestId":"abc-123","body":{"x":1}}''\<rparr>) = Inr p
          \<and> get_property p (js ''timestamp'') = Some (JStr ts)
          \<and> parse_date_time ts = Some t \<and> 1730610000120 \<le> t \<and> t \<le> 1730610000131)\<close>
proof -
  have h: \<open>result (handler 1000 (sample_event (Some (js ''{"x":1}''))) (sample_context (js ''abc-123''))
         1730610000123)
       = Inr \<lparr>statusCode = 200, resultHeaders = ok_headers,
              resultBody = js ''{"message":"Hello, World!","timestamp":"2024-11-03T05:00:00.123Z","requestId":"abc-123","body":{"x":1}}''\<rparr>\<close>
    by code_simp
  have 1: "(1730610000120 :: int) \<le> 1730610000123"
    by simp
  have 2: "(1730610000123 :: int) \<le> 1730610000131"
    by simp
  have 3: "\<bar>1730610000123 :: int\<bar> \<le> 8640000000000000"
    by simp
  have 4: "parse_date_time (js ''2024-11-03T05:00:00.123Z'') = Some 1730610000123"
    by code_simp
  from timestamp_within_invocation [OF h 1 2 3] h 1 2 3 4 show ?thesis
    by blast
qed

end
